theory Spec2Isabelle
  imports Main "HOL-Library.Word"
begin

section \<open>Values, types and exceptions\<close>

text \<open>
  \<^verbatim>\<open>using callback_id = size_t;\<close> The build script selects the 64-bit tool chain, so a
  subscription id is a 64-bit unsigned integer and \<^verbatim>\<open>++next_id_\<close> wraps around.
\<close>

type_synonym callback_id = "64 word"

text \<open>
  The decayed types a published argument can have. \<open>TConstCharPtr\<close> is
  \<^verbatim>\<open>const char*\<close>, the decayed type of a string literal; \<open>TCharPtr\<close> is \<^verbatim>\<open>char*\<close>;
  \<open>TString\<close> is \<^verbatim>\<open>std::string\<close>; \<open>TOther n\<close> is any other object type (\<^verbatim>\<open>double\<close>,
  \<^verbatim>\<open>std::vector<int>\<close>, a user's struct), named \<open>n\<close>.
\<close>

datatype ty = TInt | TBool | TString | TConstCharPtr | TCharPtr | TOther string

text \<open>
  Values. A \<open>VConstCharPtr t\<close> or \<open>VCharPtr t\<close> is a non-null pointer to the
  NUL-terminated text \<open>t\<close>, which is what \<^verbatim>\<open>std::string(const char*)\<close> requires of its
  argument. A value of another type carries the name of its type and an opaque payload.
  Building a string, and copying a string or a value of a built-in type, are taken to
  succeed: memory is not modelled.
\<close>

datatype val =
    VInt "32 word"
  | VBool bool
  | VString string
  | VConstCharPtr string
  | VCharPtr string
  | VOther string nat

fun type_of :: "val \<Rightarrow> ty" where
  "type_of (VInt _) = TInt"
| "type_of (VBool _) = TBool"
| "type_of (VString _) = TString"
| "type_of (VConstCharPtr _) = TConstCharPtr"
| "type_of (VCharPtr _) = TCharPtr"
| "type_of (VOther n _) = TOther n"

text \<open>
  One element of the pack \<^verbatim>\<open>Args...\<close> of a wrapper: \<^verbatim>\<open>T\<close> or \<^verbatim>\<open>const T&\<close>. A function
  type has no top-level \<^verbatim>\<open>const\<close> on a parameter, and a wrapper with a parameter
  \<^verbatim>\<open>T&\<close> or \<^verbatim>\<open>T&&\<close> does not compile (\<^verbatim>\<open>std::apply\<close> passes elements of a const tuple).
\<close>

datatype param = ByValue ty | ByConstRef ty

fun decay_t :: "param \<Rightarrow> ty" where
  "decay_t (ByValue t) = t"
| "decay_t (ByConstRef t) = t"

text \<open>
  What a callback or a conversion can throw: an object derived from \<^verbatim>\<open>std::exception\<close>
  with its \<^verbatim>\<open>what()\<close> text, or any other object.
\<close>

datatype exn = StdException string | OtherException

text \<open>
  \<^verbatim>\<open>std::function<void(Args...)>\<close>. A call receives the argument values and acts on
  everything outside the bus, the world \<open>'w\<close> (the variables a closure captured by value
  belong to it too); it returns or throws, and the world it leaves is kept in both cases.
  An empty \<^verbatim>\<open>std::function\<close> is the callback that throws \<^verbatim>\<open>std::bad_function_call\<close>.
  A callback does not call back into the bus that is dispatching to it.
\<close>

type_synonym 'w callback = "val list \<Rightarrow> 'w \<Rightarrow> (exn + unit) \<times> 'w"

text \<open>
  \<^verbatim>\<open>std::any\<close> as \<^verbatim>\<open>publish\<close> fills it: empty, or holding a tuple of decayed values. The
  type of the tuple it holds is the list of the value types of its elements.
\<close>

type_synonym any = "val list option"

definition tuple_type :: "val list \<Rightarrow> param list" where
  "tuple_type vs = map (\<lambda>v. ByValue (type_of v)) vs"

text \<open>
  \<^verbatim>\<open>std::any_cast<std::tuple<Ts...>>(&args_any)\<close>: the held tuple when its type is exactly
  \<^verbatim>\<open>std::tuple<Ts...>\<close>, a null pointer otherwise; it never throws.
\<close>

definition any_cast :: "param list \<Rightarrow> any \<Rightarrow> val list option" where
  "any_cast ts a =
     (case a of
        None \<Rightarrow> None
      | Some vs \<Rightarrow> if tuple_type vs = ts then Some vs else None)"

text \<open>The number of arguments a bundle carries.\<close>

definition arg_count :: "any \<Rightarrow> nat" where
  "arg_count a = (case a of None \<Rightarrow> 0 | Some vs \<Rightarrow> length vs)"

text \<open>
  What the language and the types of the program decide, taken as parameters: the
  exception that the copy constructor of a type other than the built-in ones and
  \<^verbatim>\<open>std::string\<close> throws on a value, if it throws; \<^verbatim>\<open>std::is_convertible_v<Source, Target>\<close>;
  \<^verbatim>\<open>static_cast<Target>(source)\<close> and the value-initialised \<^verbatim>\<open>Target{}\<close>, each of which
  gives a value or throws. None of them acts on the world.
\<close>

record conversions =
  copy_throws :: "string \<Rightarrow> nat \<Rightarrow> exn option"
  is_convertible_v :: "ty \<Rightarrow> ty \<Rightarrow> bool"
  static_cast :: "ty \<Rightarrow> val \<Rightarrow> exn + val"
  value_init :: "ty \<Rightarrow> exn + val"

text \<open>Copy construction: the value again, or the exception of the copy constructor.\<close>

definition copy_construct :: "conversions \<Rightarrow> val \<Rightarrow> exn + val" where
  "copy_construct L v =
     (case v of
        VOther n x \<Rightarrow> (case copy_throws L n x of Some e \<Rightarrow> Inl e | None \<Rightarrow> Inr v)
      | _ \<Rightarrow> Inr v)"

text \<open>
  The argument expressions of one call. The language does not fix the order in which
  they are evaluated; the exception kept here is the first in the order of the
  parameters, and no handler of the wrapper looks at which it is.
\<close>

fun evaluate :: "(exn + 'a) list \<Rightarrow> exn + 'a list" where
  "evaluate [] = Inr []"
| "evaluate (Inl e # rest) = Inl e"
| "evaluate (Inr v # rest) =
     (case evaluate rest of Inl e \<Rightarrow> Inl e | Inr vs \<Rightarrow> Inr (v # vs))"

section \<open>CallbackWrapper\<close>

text \<open>
  The members \<^verbatim>\<open>id_\<close> and \<^verbatim>\<open>callback_\<close>, and the pack \<^verbatim>\<open>Args...\<close> the class template is
  instantiated with.
\<close>

record 'w CallbackWrapper =
  wrapper_id :: callback_id
  wrapper_args :: "param list"
  callback :: "'w callback"

text \<open>\<^verbatim>\<open>get_args_type\<close> and \<^verbatim>\<open>get_id\<close>.\<close>

definition get_args_type :: "'w CallbackWrapper \<Rightarrow> param list" where
  "get_args_type wr = wrapper_args wr"

definition get_id :: "'w CallbackWrapper \<Rightarrow> callback_id" where
  "get_id wr = wrapper_id wr"

text \<open>
  \<^verbatim>\<open>map_to_source_type<TargetType>::type\<close>: \<^verbatim>\<open>const char*\<close> for \<^verbatim>\<open>std::string\<close> and
  \<^verbatim>\<open>const std::string&\<close>, the referenced type for \<^verbatim>\<open>const T&\<close>, the decayed type otherwise.
\<close>

fun map_to_source_type :: "param \<Rightarrow> ty" where
  "map_to_source_type (ByValue t) = (if t = TString then TConstCharPtr else t)"
| "map_to_source_type (ByConstRef t) = (if t = TString then TConstCharPtr else t)"

text \<open>
  \<^verbatim>\<open>convert_parameter<TargetType>(source)\<close>, its four \<^verbatim>\<open>if constexpr\<close> branches in order.
  It returns by value: \<^verbatim>\<open>return source;\<close> is a copy construction.
\<close>

definition convert_parameter :: "conversions \<Rightarrow> param \<Rightarrow> val \<Rightarrow> exn + val" where
  "convert_parameter L target source =
     (let DecayedTarget = decay_t target in
      if DecayedTarget = type_of source then copy_construct L source
      else if DecayedTarget = TString \<and>
              (type_of source = TConstCharPtr \<or> type_of source = TCharPtr) then
        (case source of
           VConstCharPtr t \<Rightarrow> Inr (VString t)
         | VCharPtr t \<Rightarrow> Inr (VString t)
         | _ \<Rightarrow> Inr source)
      else if is_convertible_v L (type_of source) DecayedTarget then
        static_cast L DecayedTarget source
      else value_init L DecayedTarget)"

text \<open>
  \<^verbatim>\<open>invoke_with_conversion\<close>: the callback is called with each element of the source
  tuple converted to the parameter at its position; a conversion that throws leaves
  before the call.
\<close>

definition invoke_with_conversion ::
  "conversions \<Rightarrow> 'w CallbackWrapper \<Rightarrow> val list \<Rightarrow> 'w \<Rightarrow> (exn + unit) \<times> 'w" where
  "invoke_with_conversion L wr source_tuple w =
     (case evaluate (map2 (convert_parameter L) (wrapper_args wr) source_tuple) of
        Inl e \<Rightarrow> (Inl e, w)
      | Inr args \<Rightarrow> callback wr args w)"

text \<open>
  \<^verbatim>\<open>try_parameter_conversion\<close>: the inner \<^verbatim>\<open>try\<close> returns true after the call; its
  \<^verbatim>\<open>catch (...) {}\<close> falls through to \<^verbatim>\<open>return false\<close>.
\<close>

definition try_parameter_conversion ::
  "conversions \<Rightarrow> 'w CallbackWrapper \<Rightarrow> any \<Rightarrow> 'w \<Rightarrow> (exn + bool) \<times> 'w" where
  "try_parameter_conversion L wr args_any w =
     (case any_cast (map (\<lambda>p. ByValue (map_to_source_type p)) (wrapper_args wr)) args_any of
        Some source_tuple \<Rightarrow>
          (case invoke_with_conversion L wr source_tuple w of
             (Inr _, w') \<Rightarrow> (Inr True, w')
           | (Inl _, w') \<Rightarrow> (Inr False, w'))
      | None \<Rightarrow> (Inr False, w))"

definition try_universal_conversion ::
  "conversions \<Rightarrow> 'w CallbackWrapper \<Rightarrow> any \<Rightarrow> 'w \<Rightarrow> (exn + bool) \<times> 'w" where
  "try_universal_conversion L wr args_any w = try_parameter_conversion L wr args_any w"

text \<open>
  \<^verbatim>\<open>std::apply(callback_, *args_tuple)\<close> passes the elements of the const tuple: a
  parameter declared by value is copy-constructed from its element, a parameter declared
  \<^verbatim>\<open>const T&\<close> is bound to it. A copy that throws leaves before the call.
\<close>

fun pass_argument :: "conversions \<Rightarrow> param \<Rightarrow> val \<Rightarrow> exn + val" where
  "pass_argument L (ByValue t) v = copy_construct L v"
| "pass_argument L (ByConstRef t) v = Inr v"

definition std_apply ::
  "conversions \<Rightarrow> 'w CallbackWrapper \<Rightarrow> val list \<Rightarrow> 'w \<Rightarrow> (exn + unit) \<times> 'w" where
  "std_apply L wr args_tuple w =
     (case evaluate (map2 (pass_argument L) (wrapper_args wr) args_tuple) of
        Inl e \<Rightarrow> (Inl e, w)
      | Inr args \<Rightarrow> callback wr args w)"

text \<open>
  A call followed by \<^verbatim>\<open>return true;\<close>: an exception of the call leaves the block before
  the \<^verbatim>\<open>return\<close>.
\<close>

definition return_true :: "(exn + unit) \<times> 'w \<Rightarrow> (exn + bool) \<times> 'w" where
  "return_true r =
     (case r of
        (Inr _, w') \<Rightarrow> (Inr True, w')
      | (Inl e, w') \<Rightarrow> (Inl e, w'))"

text \<open>The \<^verbatim>\<open>try\<close> block of \<^verbatim>\<open>try_invoke\<close>.\<close>

definition try_invoke_block ::
  "conversions \<Rightarrow> 'w CallbackWrapper \<Rightarrow> any \<Rightarrow> 'w \<Rightarrow> (exn + bool) \<times> 'w" where
  "try_invoke_block L wr args_any w =
     (if length (wrapper_args wr) = 0 then return_true (callback wr [] w)
      else
        (case any_cast (wrapper_args wr) args_any of
           Some args_tuple \<Rightarrow> return_true (std_apply L wr args_tuple w)
         | None \<Rightarrow>
             (case any_cast (map (\<lambda>p. ByValue (decay_t p)) (wrapper_args wr)) args_any of
                Some args_tuple \<Rightarrow> return_true (std_apply L wr args_tuple w)
              | None \<Rightarrow> try_universal_conversion L wr args_any w)))"

text \<open>\<^verbatim>\<open>try_invoke\<close>: the block, then \<^verbatim>\<open>catch (...) {}\<close> and \<^verbatim>\<open>return false\<close>.\<close>

definition try_invoke ::
  "conversions \<Rightarrow> 'w CallbackWrapper \<Rightarrow> any \<Rightarrow> 'w \<Rightarrow> (exn + bool) \<times> 'w" where
  "try_invoke L wr args_any w =
     (case try_invoke_block L wr args_any w of
        (Inr b, w') \<Rightarrow> (Inr b, w')
      | (Inl _, w') \<Rightarrow> (Inr False, w'))"

section \<open>EventBus\<close>

text \<open>
  What the bus writes to \<^verbatim>\<open>std::cout\<close> and \<^verbatim>\<open>std::cerr\<close>, one entry for each message, with
  the values it prints (the implementation-defined \<^verbatim>\<open>typeid\<close> names are left out).
\<close>

datatype message =
    SubscribeEvent string callback_id
  | NoCallbacksWarning string
  | PublishEvent string nat
  | TypeMismatch callback_id "param list" "param list"
  | SuccessfullyCalled nat
  | CallbackException callback_id string

text \<open>
  The members of \<^verbatim>\<open>EventBus\<close> (\<^verbatim>\<open>next_id_\<close>, \<^verbatim>\<open>callbacks_map_\<close>, \<^verbatim>\<open>verbose_logging_\<close>),
  the two output streams and the world of the callbacks. The mutex is not modelled:
  calls are taken one at a time.
\<close>

record 'w EventBus =
  next_id :: callback_id
  callbacks_map :: "string \<rightharpoonup> 'w CallbackWrapper list"
  verbose_logging :: bool
  cout :: "message list"
  cerr :: "message list"
  world :: 'w

text \<open>The constructor \<^verbatim>\<open>EventBus(bool verbose_logging = false)\<close>, in a given world.\<close>

definition new_EventBus :: "bool \<Rightarrow> 'w \<Rightarrow> 'w EventBus" where
  "new_EventBus verbose w =
     \<lparr>next_id = 0, callbacks_map = Map.empty, verbose_logging = verbose,
      cout = [], cerr = [], world = w\<rparr>"

definition setVerboseLogging :: "bool \<Rightarrow> 'w EventBus \<Rightarrow> 'w EventBus" where
  "setVerboseLogging verbose s = s\<lparr>verbose_logging := verbose\<rparr>"

text \<open>
  \<^verbatim>\<open>subscribe\<close>. The callable is given by its parameter list and its behaviour.
  \<^verbatim>\<open>callbacks_map_[eventName]\<close> creates an empty entry when there is none.
\<close>

definition subscribe ::
  "string \<Rightarrow> param list \<times> 'w callback \<Rightarrow> 'w EventBus \<Rightarrow> callback_id \<times> 'w EventBus" where
  "subscribe eventName cb s =
     (let cid = next_id s + 1;
          s1 = s\<lparr>next_id := cid\<rparr>;
          s2 = (if verbose_logging s1
                then s1\<lparr>cout := cout s1 @ [SubscribeEvent eventName cid]\<rparr> else s1);
          wrapper = \<lparr>wrapper_id = cid, wrapper_args = fst cb, callback = snd cb\<rparr>;
          entry = (case callbacks_map s2 eventName of None \<Rightarrow> [] | Some callbacks \<Rightarrow> callbacks)
      in (cid, s2\<lparr>callbacks_map := (callbacks_map s2)(eventName \<mapsto> entry @ [wrapper])\<rparr>))"

text \<open>
  \<^verbatim>\<open>std::find_if\<close> followed by \<^verbatim>\<open>erase\<close>: the list without its first wrapper of the
  given id, or nothing when no wrapper has it.
\<close>

fun erase_first :: "callback_id \<Rightarrow> 'w CallbackWrapper list \<Rightarrow> 'w CallbackWrapper list option" where
  "erase_first cid [] = None"
| "erase_first cid (wrapper # rest) =
     (if get_id wrapper = cid then Some rest
      else map_option (\<lambda>r. wrapper # r) (erase_first cid rest))"

definition unsubscribe :: "string \<Rightarrow> callback_id \<Rightarrow> 'w EventBus \<Rightarrow> bool \<times> 'w EventBus" where
  "unsubscribe eventName cid s =
     (case callbacks_map s eventName of
        None \<Rightarrow> (False, s)
      | Some callbacks \<Rightarrow>
          (case erase_first cid callbacks of
             Some callbacks' \<Rightarrow>
               (True, s\<lparr>callbacks_map := (callbacks_map s)(eventName \<mapsto> callbacks')\<rparr>)
           | None \<Rightarrow> (False, s)))"

definition isEventRegistered :: "'w EventBus \<Rightarrow> string \<Rightarrow> bool" where
  "isEventRegistered s eventName =
     (case callbacks_map s eventName of None \<Rightarrow> False | Some callbacks \<Rightarrow> callbacks \<noteq> [])"

definition getCallbackCount :: "'w EventBus \<Rightarrow> string \<Rightarrow> nat" where
  "getCallbackCount s eventName =
     (case callbacks_map s eventName of None \<Rightarrow> 0 | Some callbacks \<Rightarrow> length callbacks)"

definition unsubscribe_all :: "string \<Rightarrow> 'w EventBus \<Rightarrow> nat \<times> 'w EventBus" where
  "unsubscribe_all eventName s =
     (case callbacks_map s eventName of
        None \<Rightarrow> (0, s)
      | Some callbacks \<Rightarrow>
          (length callbacks, s\<lparr>callbacks_map := (callbacks_map s)(eventName := None)\<rparr>))"

definition clear :: "'w EventBus \<Rightarrow> 'w EventBus" where
  "clear s = s\<lparr>callbacks_map := Map.empty\<rparr>"

text \<open>
  The loop of \<^verbatim>\<open>publish\<close> over the wrappers of the event, with its counter of
  successful calls. The handler \<^verbatim>\<open>catch (const std::exception& e)\<close> writes to
  \<^verbatim>\<open>std::cerr\<close> and goes on; an exception of another type would leave \<^verbatim>\<open>publish\<close>.
  \<open>actual\<close> is the type of the tuple of the published arguments. The counter is an
  \<^verbatim>\<open>int\<close> that counts wrappers held in memory, and is only printed; it is a \<open>nat\<close> here.
\<close>

fun publish_loop ::
  "conversions \<Rightarrow> 'w CallbackWrapper list \<Rightarrow> any \<Rightarrow> param list \<Rightarrow> nat \<Rightarrow> 'w EventBus
     \<Rightarrow> (exn + nat) \<times> 'w EventBus" where
  "publish_loop L [] args_any actual successful_calls s = (Inr successful_calls, s)"
| "publish_loop L (wrapper # rest) args_any actual successful_calls s =
     (case try_invoke L wrapper args_any (world s) of
        (Inr True, w') \<Rightarrow>
          publish_loop L rest args_any actual (successful_calls + 1) (s\<lparr>world := w'\<rparr>)
      | (Inr False, w') \<Rightarrow>
          publish_loop L rest args_any actual successful_calls
            (if verbose_logging s
             then s\<lparr>world := w',
                    cout := cout s @ [TypeMismatch (get_id wrapper) (get_args_type wrapper) actual]\<rparr>
             else s\<lparr>world := w'\<rparr>)
      | (Inl (StdException what), w') \<Rightarrow>
          publish_loop L rest args_any actual successful_calls
            (s\<lparr>world := w', cerr := cerr s @ [CallbackException (get_id wrapper) what]\<rparr>)
      | (Inl OtherException, w') \<Rightarrow> (Inl OtherException, s\<lparr>world := w'\<rparr>))"

text \<open>
  \<^verbatim>\<open>publish\<close>. The arguments arrive decayed, as \<^verbatim>\<open>std::decay_t<Args>(args)...\<close> makes
  them; with no argument \<^verbatim>\<open>args_any\<close> stays empty.
\<close>

definition publish ::
  "conversions \<Rightarrow> string \<Rightarrow> val list \<Rightarrow> 'w EventBus \<Rightarrow> (exn + unit) \<times> 'w EventBus" where
  "publish L eventName args s =
     (case callbacks_map s eventName of
        None \<Rightarrow>
          (Inr (), if verbose_logging s
                   then s\<lparr>cout := cout s @ [NoCallbacksWarning eventName]\<rparr> else s)
      | Some callbacks \<Rightarrow>
          if callbacks = [] then
            (Inr (), if verbose_logging s
                     then s\<lparr>cout := cout s @ [NoCallbacksWarning eventName]\<rparr> else s)
          else
            (let s1 = (if verbose_logging s
                       then s\<lparr>cout := cout s @ [PublishEvent eventName (length args)]\<rparr> else s);
                 args_any = (if length args > 0 then Some args else None)
             in case publish_loop L callbacks args_any (tuple_type args) 0 s1 of
                  (Inr successful_calls, s2) \<Rightarrow>
                    (Inr (), if verbose_logging s2
                             then s2\<lparr>cout := cout s2 @ [SuccessfullyCalled successful_calls]\<rparr>
                             else s2)
                | (Inl e, s2) \<Rightarrow> (Inl e, s2)))"

text \<open>
  A range-based \<^verbatim>\<open>for\<close> over the \<^verbatim>\<open>std::unordered_map\<close> visits every entry once, in an
  order the container chooses. The order is a parameter of the two scans: a list \<open>ord\<close>
  of the keys, which \<open>iteration_order\<close> requires to hold each key of the map once.
\<close>

definition iteration_order :: "(string \<rightharpoonup> 'v) \<Rightarrow> string list \<Rightarrow> bool" where
  "iteration_order m ord \<longleftrightarrow> distinct ord \<and> set ord = dom m"

definition entries :: "(string \<rightharpoonup> 'v) \<Rightarrow> string list \<Rightarrow> (string \<times> 'v) list" where
  "entries m ord = concat (map (\<lambda>k. case m k of None \<Rightarrow> [] | Some v \<Rightarrow> [(k, v)]) ord)"

definition getAllEventNames :: "string list \<Rightarrow> 'w EventBus \<Rightarrow> string list" where
  "getAllEventNames ord s =
     fold (\<lambda>pair event_names. if snd pair \<noteq> [] then event_names @ [fst pair] else event_names)
       (entries (callbacks_map s) ord) []"

text \<open>
  The fields are of type \<^verbatim>\<open>size_t\<close> and count wrappers held in memory at once, whose
  number stays below \<open>2 ^ 64\<close>: they are \<open>nat\<close> here, as the sizes of the vectors are.
\<close>

record EventBusStats =
  total_events :: nat
  total_callbacks :: nat
  max_callbacks_per_event :: nat
  most_subscribed_event :: string

text \<open>The body of the loop of \<^verbatim>\<open>getStats\<close>.\<close>

definition getStats_step :: "string \<times> 'w CallbackWrapper list \<Rightarrow> EventBusStats \<Rightarrow> EventBusStats" where
  "getStats_step pair stats =
     (if snd pair \<noteq> [] then
        (let callback_count = length (snd pair);
             stats1 = stats\<lparr>total_events := total_events stats + 1,
                            total_callbacks := total_callbacks stats + callback_count\<rparr>
         in if callback_count > max_callbacks_per_event stats1
            then stats1\<lparr>max_callbacks_per_event := callback_count,
                        most_subscribed_event := fst pair\<rparr>
            else stats1)
      else stats)"

definition getStats :: "string list \<Rightarrow> 'w EventBus \<Rightarrow> EventBusStats" where
  "getStats ord s =
     fold getStats_step (entries (callbacks_map s) ord)
       \<lparr>total_events = 0, total_callbacks = 0, max_callbacks_per_event = 0,
        most_subscribed_event = []\<rparr>"

definition publish_if_min_subscribers ::
  "conversions \<Rightarrow> string \<Rightarrow> nat \<Rightarrow> val list \<Rightarrow> 'w EventBus \<Rightarrow> (exn + bool) \<times> 'w EventBus" where
  "publish_if_min_subscribers L eventName min_subscribers args s =
     (case callbacks_map s eventName of
        None \<Rightarrow> (Inr False, s)
      | Some callbacks \<Rightarrow>
          if length callbacks < min_subscribers then (Inr False, s)
          else
            (case publish L eventName args s of
               (Inr _, s') \<Rightarrow> (Inr True, s')
             | (Inl e, s') \<Rightarrow> (Inl e, s')))"

section \<open>Sequences of calls\<close>

text \<open>
  The calls a program makes on one bus. \<open>run\<close> makes them in order and returns the ids
  that the \<^verbatim>\<open>subscribe\<close> calls among them returned, in the order of issue.
\<close>

datatype 'w call =
    Subscribe string "param list \<times> 'w callback"
  | Unsubscribe string callback_id
  | UnsubscribeAll string
  | Publish string "val list"
  | PublishIfMinSubscribers string nat "val list"
  | Clear
  | SetVerboseLogging bool

fun run_call :: "conversions \<Rightarrow> 'w call \<Rightarrow> 'w EventBus \<Rightarrow> callback_id list \<times> 'w EventBus" where
  "run_call L (Subscribe eventName cb) s = (case subscribe eventName cb s of (cid, s') \<Rightarrow> ([cid], s'))"
| "run_call L (Unsubscribe eventName cid) s = ([], snd (unsubscribe eventName cid s))"
| "run_call L (UnsubscribeAll eventName) s = ([], snd (unsubscribe_all eventName s))"
| "run_call L (Publish eventName args) s = ([], snd (publish L eventName args s))"
| "run_call L (PublishIfMinSubscribers eventName n args) s =
     ([], snd (publish_if_min_subscribers L eventName n args s))"
| "run_call L Clear s = ([], clear s)"
| "run_call L (SetVerboseLogging verbose) s = ([], setVerboseLogging verbose s)"

fun run :: "conversions \<Rightarrow> 'w call list \<Rightarrow> 'w EventBus \<Rightarrow> callback_id list \<times> 'w EventBus" where
  "run L [] s = ([], s)"
| "run L (c # cs) s =
     (case run_call L c s of (ids, s') \<Rightarrow> (case run L cs s' of (ids', s'') \<Rightarrow> (ids @ ids', s'')))"

fun is_subscribe :: "'w call \<Rightarrow> bool" where
  "is_subscribe (Subscribe _ _) = True"
| "is_subscribe _ = False"

section \<open>The invariant of the registry\<close>

text \<open>
  Within every entry the ids are pairwise distinct, and no id is beyond the counter.
\<close>

definition ids_unique :: "'w EventBus \<Rightarrow> bool" where
  "ids_unique s \<longleftrightarrow>
     (\<forall>e cbs. callbacks_map s e = Some cbs \<longrightarrow>
        distinct (map get_id cbs) \<and> (\<forall>wr \<in> set cbs. unat (get_id wr) \<le> unat (next_id s)))"

section \<open>Example data\<close>

text \<open>
  A world that records the calls made, two callbacks on it, and conversions for the
  examples: no copy throws, and there is no implicit conversion beyond those of the
  wrapper itself. In \<open>widget_conversions\<close> the copy constructor of the type \<open>''Widget''\<close>
  throws.
\<close>

type_synonym trace = "(string \<times> val list) list"

definition recording :: "string \<Rightarrow> trace callback" where
  "recording tag args w = (Inr (), w @ [(tag, args)])"

definition throwing :: "string \<Rightarrow> exn \<Rightarrow> trace callback" where
  "throwing tag e args w = (Inl e, w @ [(tag, args)])"

fun example_value_init :: "ty \<Rightarrow> val" where
  "example_value_init TInt = VInt 0"
| "example_value_init TBool = VBool False"
| "example_value_init TString = VString []"
| "example_value_init TConstCharPtr = VConstCharPtr []"
| "example_value_init TCharPtr = VCharPtr []"
| "example_value_init (TOther n) = VOther n 0"

definition example_conversions :: conversions where
  "example_conversions =
     \<lparr>copy_throws = (\<lambda>n x. None), is_convertible_v = (\<lambda>source target. False),
      static_cast = (\<lambda>target v. Inr v), value_init = (\<lambda>target. Inr (example_value_init target))\<rparr>"


definition example_wrapper :: "param list \<Rightarrow> trace CallbackWrapper" where
  "example_wrapper ps = \<lparr>wrapper_id = 1, wrapper_args = ps, callback = recording ''h''\<rparr>"

text \<open>
  A bus with verbose logging off and two subscribers of the event \<open>''e''\<close>, neither with a
  parameter: the first throws a \<^verbatim>\<open>std::exception\<close>, the second returns.
\<close>

definition two_subscribers :: "trace EventBus" where
  "two_subscribers =
     snd (run example_conversions
       [Subscribe ''e'' ([], throwing ''first'' (StdException ''boom'')),
        Subscribe ''e'' ([], recording ''second'')]
       (new_EventBus False []))"

text \<open>A program of five calls, three of them \<open>subscribe\<close>.\<close>

definition example_calls :: "trace call list" where
  "example_calls =
     [Subscribe ''x'' ([ByValue TInt], recording ''a''),
      Unsubscribe ''x'' 1,
      Subscribe ''y'' ([], recording ''b''),
      Publish ''y'' [],
      Subscribe ''x'' ([ByConstRef TString], recording ''c'')]"

text \<open>
  A bus whose entry for \<open>''x''\<close> was emptied by \<open>unsubscribe\<close>, and the bus of three
  subscribers of \<open>''x''\<close> and one of \<open>''y''\<close>.
\<close>

definition emptied_bus :: "trace EventBus" where
  "emptied_bus =
     snd (run example_conversions
       [Subscribe ''x'' ([ByValue TInt], recording ''a''),
        Subscribe ''y'' ([], recording ''b''),
        Unsubscribe ''x'' 1]
       (new_EventBus False []))"

definition three_and_one :: "trace EventBus" where
  "three_and_one =
     snd (run example_conversions
       [Subscribe ''x'' ([ByValue TInt], recording ''a''),
        Subscribe ''y'' ([], recording ''b''),
        Subscribe ''x'' ([ByConstRef TString], recording ''c''),
        Subscribe ''x'' ([], recording ''d'')]
       (new_EventBus False []))"


text \<open>
  A program that subscribes to \<open>''e''\<close>, then subscribes to \<open>''f''\<close> and removes that
  subscription again, \<open>2 ^ 64 - 1\<close> times, and then subscribes to \<open>''e''\<close> once more.
\<close>

definition wrapped_calls :: "trace call list" where
  "wrapped_calls =
     Subscribe ''e'' ([], recording ''first'') #
     concat (replicate (2 ^ 64 - 1)
       [Subscribe ''f'' ([], recording ''other''), UnsubscribeAll ''f'']) @
     [Subscribe ''e'' ([], recording ''second'')]"

section \<open>The wrapper: matching and exceptions\<close>

lemma any_cast_arity_mismatch:
  "arg_count a \<noteq> length ts \<Longrightarrow> any_cast ts a = None"
  by (auto simp: any_cast_def arg_count_def tuple_type_def split: option.splits)

lemma try_invoke_returns:
  "\<exists>r w'. try_invoke L wr args_any w = (Inr r, w')"
  by (auto simp: try_invoke_def split: prod.splits sum.splits)

text \<open>
  C1, as the code has it. A wrapper with at least one declared parameter fails on every
  bundle whose argument count differs from its parameter count: \<open>try_invoke\<close> returns
  false and the world is the one before, so the callback was not called. A wrapper with
  no declared parameter makes no check at all: on every bundle, whatever its argument
  count, it calls the callback with no arguments, and returns true when the call returns
  and false when it throws.
\<close>

theorem try_invoke_arity:
  "(wrapper_args wr \<noteq> [] \<and> arg_count args_any \<noteq> length (wrapper_args wr)
      \<longrightarrow> try_invoke L wr args_any w = (Inr False, w)) \<and>
   (wrapper_args wr = []
      \<longrightarrow> try_invoke L wr args_any w =
            (case callback wr [] w of
               (Inr u, w') \<Rightarrow> (Inr True, w')
             | (Inl e, w') \<Rightarrow> (Inr False, w')))"
  by (auto simp: try_invoke_def try_invoke_block_def try_universal_conversion_def
        try_parameter_conversion_def any_cast_arity_mismatch return_true_def std_apply_def
      split: prod.splits sum.splits)

theorem try_invoke_arity_witness:
  "try_invoke example_conversions (example_wrapper [ByValue TInt, ByValue TInt])
      (Some [VInt 1]) [] = (Inr False, []) \<and>
   try_invoke example_conversions (example_wrapper []) None [] = (Inr True, [(''h'', [])])"
proof -
  have "try_invoke example_conversions (example_wrapper [ByValue TInt, ByValue TInt])
      (Some [VInt 1]) [] = (Inr False, [])"
    using try_invoke_arity [of "example_wrapper [ByValue TInt, ByValue TInt]" "Some [VInt 1]"
        example_conversions "[]"]
    by (simp add: example_wrapper_def arg_count_def)
  moreover have "try_invoke example_conversions (example_wrapper []) None [] =
      (Inr True, [(''h'', [])])"
    using try_invoke_arity [of "example_wrapper []" None example_conversions "[]"]
    by (simp add: example_wrapper_def recording_def)
  ultimately show ?thesis by simp
qed

text \<open>
  C1 as stated fails: a bundle of one argument and a wrapper of no parameter differ in
  count, and the callback is called and \<open>try_invoke\<close> returns true.
\<close>

theorem try_invoke_arity_counterexample:
  "arg_count (Some [VInt 5]) \<noteq> length (wrapper_args (example_wrapper [])) \<and>
   try_invoke example_conversions (example_wrapper []) (Some [VInt 5]) [] =
     (Inr True, [(''h'', [])])"
  by (simp add: arg_count_def example_wrapper_def try_invoke_def try_invoke_block_def
      return_true_def std_apply_def recording_def)






section \<open>Dispatch\<close>

text \<open>
  The loop returns for every list of wrappers; it leaves the registry, the id counter,
  the logging switch and \<^verbatim>\<open>std::cerr\<close> as they were, and the world is the one that the
  calls of \<open>try_invoke\<close>, one for each wrapper in the order of the list, leave.
\<close>

lemma publish_loop_returns:
  "\<exists>n s'. publish_loop L cbs a actual k s = (Inr n, s') \<and>
      callbacks_map s' = callbacks_map s \<and> next_id s' = next_id s \<and>
      verbose_logging s' = verbose_logging s \<and> cerr s' = cerr s \<and>
      world s' = fold (\<lambda>wr w. snd (try_invoke L wr a w)) cbs (world s)"
proof (induction cbs arbitrary: k s)
  case Nil
  show ?case by simp
next
  case (Cons wr cbs)
  obtain r w' where r: "try_invoke L wr a (world s) = (Inr r, w')"
    using try_invoke_returns [of L wr a "world s"] by auto
  show ?case
  proof (cases r)
    case True
    with r Cons.IH [of "k + 1" "s\<lparr>world := w'\<rparr>"] show ?thesis by simp
  next
    case False
    show ?thesis
    proof (cases "verbose_logging s")
      case True
      with r False
        Cons.IH [of k "s\<lparr>world := w',
           cout := cout s @ [TypeMismatch (get_id wr) (get_args_type wr) actual]\<rparr>"]
      show ?thesis by simp
    next
      case nv: False
      with r False Cons.IH [of k "s\<lparr>world := w'\<rparr>"] show ?thesis by simp
    qed
  qed
qed

lemma publish_returns:
  "\<exists>s'. publish L eventName args s = (Inr (), s') \<and>
      callbacks_map s' = callbacks_map s \<and> next_id s' = next_id s \<and>
      verbose_logging s' = verbose_logging s \<and> cerr s' = cerr s \<and>
      world s' = fold (\<lambda>wr w. snd (try_invoke L wr (if length args > 0 then Some args else None) w))
                   (case callbacks_map s eventName of None \<Rightarrow> [] | Some cbs \<Rightarrow> cbs) (world s)"
proof (cases "callbacks_map s eventName")
  case None
  then show ?thesis by (simp add: publish_def)
next
  case (Some cbs)
  show ?thesis
  proof (cases "cbs = []")
    case True
    with Some show ?thesis by (simp add: publish_def)
  next
    case False
    define s1 where "s1 = (if verbose_logging s
        then s\<lparr>cout := cout s @ [PublishEvent eventName (length args)]\<rparr> else s)"
    obtain n s2 where l: "publish_loop L cbs (if length args > 0 then Some args else None)
         (tuple_type args) 0 s1 = (Inr n, s2)"
      and k: "callbacks_map s2 = callbacks_map s1" "next_id s2 = next_id s1"
        "verbose_logging s2 = verbose_logging s1" "cerr s2 = cerr s1"
        "world s2 = fold (\<lambda>wr w. snd (try_invoke L wr (if length args > 0 then Some args else None) w))
            cbs (world s1)"
      using publish_loop_returns [of L cbs "if length args > 0 then Some args else None"
          "tuple_type args" 0 s1] by auto
    have s1: "callbacks_map s1 = callbacks_map s" "next_id s1 = next_id s"
        "verbose_logging s1 = verbose_logging s" "cerr s1 = cerr s" "world s1 = world s"
      by (simp_all add: s1_def)
    from Some False l k s1 show ?thesis
      by (simp add: publish_def Let_def s1_def [symmetric])
  qed
qed

lemma publish_if_min_subscribers_returns:
  "\<exists>b s'. publish_if_min_subscribers L eventName n args s = (Inr b, s') \<and>
      callbacks_map s' = callbacks_map s \<and> next_id s' = next_id s \<and>
      verbose_logging s' = verbose_logging s \<and> cerr s' = cerr s"
proof -
  obtain s' where p: "publish L eventName args s = (Inr (), s')"
    and k: "callbacks_map s' = callbacks_map s" "next_id s' = next_id s"
      "verbose_logging s' = verbose_logging s" "cerr s' = cerr s"
    using publish_returns [of L eventName args s] by auto
  then show ?thesis
    by (auto simp: publish_if_min_subscribers_def split: option.splits)
qed

lemma two_subscribers_map:
  "callbacks_map two_subscribers ''e'' =
     Some [\<lparr>wrapper_id = 1, wrapper_args = [],
             callback = throwing ''first'' (StdException ''boom'')\<rparr>,
           \<lparr>wrapper_id = 2, wrapper_args = [], callback = recording ''second''\<rparr>]"
  by (simp add: two_subscribers_def subscribe_def new_EventBus_def Let_def)

text \<open>
  C9. \<open>publish\<close> leaves the registry as it found it: the map from event names to the
  ordered lists of wrappers is the same after the call, and so is the id counter. The
  same holds of \<open>publish_if_min_subscribers\<close> and \<open>setVerboseLogging\<close>; the remaining
  operations that return a state are \<open>subscribe\<close>, \<open>unsubscribe\<close>, \<open>unsubscribe_all\<close>
  and \<open>clear\<close>.
\<close>

theorem publish_frame:
  "callbacks_map (snd (publish L eventName args s)) = callbacks_map s \<and>
   next_id (snd (publish L eventName args s)) = next_id s \<and>
   callbacks_map (snd (publish_if_min_subscribers L eventName n args s)) = callbacks_map s \<and>
   next_id (snd (publish_if_min_subscribers L eventName n args s)) = next_id s \<and>
   callbacks_map (setVerboseLogging verbose s) = callbacks_map s \<and>
   next_id (setVerboseLogging verbose s) = next_id s"
  using publish_returns [of L eventName args s]
    publish_if_min_subscribers_returns [of L eventName n args s]
  by (auto simp: setVerboseLogging_def)

theorem publish_frame_witness:
  "map_option (map wrapper_id)
     (callbacks_map (snd (publish example_conversions ''e'' [] two_subscribers)) ''e'') =
     Some [1, 2] \<and>
   next_id (snd (publish example_conversions ''e'' [] two_subscribers)) = 2"
proof -
  have "next_id two_subscribers = 2"
    by (simp add: two_subscribers_def subscribe_def new_EventBus_def Let_def)
  with publish_frame [of example_conversions "''e''" "[]" two_subscribers]
  show ?thesis by (simp add: two_subscribers_map)
qed

text \<open>
  C3, as the code has it. \<open>publish_if_min_subscribers\<close> returns true, after a full
  \<open>publish\<close>, exactly when the event has an entry in the registry and the entry holds
  at least \<open>min_subscribers\<close> subscriptions; otherwise it returns false and nothing
  changes. An event with no entry is refused whatever the minimum.
\<close>

theorem publish_if_min_subscribers_spec:
  "publish_if_min_subscribers L eventName n args s =
     (if eventName \<in> dom (callbacks_map s) \<and> n \<le> getCallbackCount s eventName
      then (Inr True, snd (publish L eventName args s))
      else (Inr False, s))"
  using publish_returns [of L eventName args s]
  by (auto simp: publish_if_min_subscribers_def getCallbackCount_def split: option.splits)

theorem publish_if_min_subscribers_spec_witness:
  "fst (publish_if_min_subscribers example_conversions ''e'' 2 [] two_subscribers) = Inr True \<and>
   world (snd (publish_if_min_subscribers example_conversions ''e'' 2 [] two_subscribers)) =
     [(''first'', []), (''second'', [])] \<and>
   publish_if_min_subscribers example_conversions ''e'' 3 [] two_subscribers =
     (Inr False, two_subscribers)"
proof -
  note m = two_subscribers_map
  have v: "verbose_logging two_subscribers = False" "world two_subscribers = []"
    by (simp_all add: two_subscribers_def subscribe_def new_EventBus_def Let_def)
  have p: "world (snd (publish example_conversions ''e'' [] two_subscribers)) =
      [(''first'', []), (''second'', [])]"
    by (simp add: publish_def m v try_invoke_def try_invoke_block_def return_true_def std_apply_def
        throwing_def recording_def)
  show ?thesis
    using publish_if_min_subscribers_spec [of example_conversions "''e''" 2 "[]" two_subscribers]
      publish_if_min_subscribers_spec [of example_conversions "''e''" 3 "[]" two_subscribers]
    by (simp add: getCallbackCount_def m p dom_def)
qed

text \<open>
  C3 as stated fails on an event that was never subscribed: its subscription count is 0,
  which is at least the minimum 0, and the call returns false.
\<close>

theorem publish_if_min_subscribers_counterexample:
  "0 \<le> getCallbackCount (new_EventBus False ([] :: trace)) ''e'' \<and>
   publish_if_min_subscribers example_conversions ''e'' 0 [] (new_EventBus False ([] :: trace)) =
     (Inr False, new_EventBus False [])"
  by (simp add: publish_if_min_subscribers_def new_EventBus_def)

text \<open>
  C2, at a bus whose first subscriber throws a \<^verbatim>\<open>std::exception\<close>: \<open>publish\<close> returns,
  the second subscriber is called after the first, and nothing reaches \<^verbatim>\<open>std::cerr\<close> or
  \<^verbatim>\<open>std::cout\<close>. The exception ended in the \<^verbatim>\<open>catch (...)\<close> of \<open>try_invoke\<close>, so the
  handler of \<open>publish\<close> that reports a callback exception with the id never runs.
\<close>

theorem callback_exception_not_logged:
  "(case publish example_conversions ''e'' [] two_subscribers of
      (r, s') \<Rightarrow> (r, cout s', cerr s', world s')) =
   (Inr (), [], [], [(''first'', []), (''second'', [])])"
  by (simp add: two_subscribers_def publish_def subscribe_def new_EventBus_def Let_def
      try_invoke_def try_invoke_block_def return_true_def std_apply_def throwing_def recording_def)

lemma try_invoke_text:
  assumes "decay_t p = TString" and "wrapper_args wr = [p]"
  shows "try_invoke L wr (Some [VConstCharPtr t]) w =
     (case callback wr [VString t] w of
        (Inr u, w') \<Rightarrow> (Inr True, w')
      | (Inl e, w') \<Rightarrow> (Inr False, w'))"
  using assms
  by (cases p)
    (auto simp: try_invoke_def try_invoke_block_def try_universal_conversion_def
      try_parameter_conversion_def invoke_with_conversion_def any_cast_def tuple_type_def
      convert_parameter_def return_true_def std_apply_def
      split: prod.splits sum.splits)

text \<open>
  C8. A parameter declared \<^verbatim>\<open>std::string\<close> or \<^verbatim>\<open>const std::string&\<close> has the source type
  \<^verbatim>\<open>const char*\<close>, and a \<^verbatim>\<open>const char*\<close> converts to the string of its text. A wrapper
  of that one parameter, given the bundle of one string literal, calls its callback
  with the owned string. After \<open>subscribe\<close> of such a callback \<open>h\<close> to an event,
  \<open>publish\<close> of a string literal on the event leaves the world that one call of \<open>h\<close>
  with the owned string leaves, made after the dispatch to the earlier subscribers.
\<close>

theorem text_conversion:
  assumes "decay_t p = TString"
  shows "map_to_source_type p = TConstCharPtr \<and>
    convert_parameter L p (VConstCharPtr t) = Inr (VString t) \<and>
    (wrapper_args wr = [p] \<longrightarrow>
       try_invoke L wr (Some [VConstCharPtr t]) w =
         (case callback wr [VString t] w of
            (Inr u, w') \<Rightarrow> (Inr True, w')
          | (Inl e, w') \<Rightarrow> (Inr False, w'))) \<and>
    world (snd (publish L eventName [VConstCharPtr t] (snd (subscribe eventName ([p], h) s)))) =
      snd (h [VString t]
        (fold (\<lambda>wr w. snd (try_invoke L wr (Some [VConstCharPtr t]) w))
           (case callbacks_map s eventName of None \<Rightarrow> [] | Some cbs \<Rightarrow> cbs) (world s)))"
proof -
  have a: "map_to_source_type p = TConstCharPtr"
    using assms by (cases p) auto
  have b: "convert_parameter L p (VConstCharPtr t) = Inr (VString t)"
    using assms by (simp add: convert_parameter_def)
  define wr0 where
    "wr0 = \<lparr>wrapper_id = next_id s + 1, wrapper_args = [p], callback = h\<rparr>"
  define earlier where
    "earlier = (case callbacks_map s eventName of None \<Rightarrow> [] | Some cbs \<Rightarrow> cbs)"
  define s1 where "s1 = snd (subscribe eventName ([p], h) s)"
  have m: "callbacks_map s1 eventName = Some (earlier @ [wr0])" and w: "world s1 = world s"
    by (simp_all add: s1_def subscribe_def Let_def wr0_def earlier_def)
  have t: "snd (try_invoke L wr0 (Some [VConstCharPtr t]) v) = snd (h [VString t] v)" for v
    using try_invoke_text [of p wr0 L t v] assms
    by (simp add: wr0_def split: prod.splits sum.splits)
  have "world (snd (publish L eventName [VConstCharPtr t] s1)) =
      fold (\<lambda>wr w. snd (try_invoke L wr (Some [VConstCharPtr t]) w)) (earlier @ [wr0]) (world s1)"
    using publish_returns [of L eventName "[VConstCharPtr t]" s1] m by auto
  then have d: "world (snd (publish L eventName [VConstCharPtr t] s1)) =
      snd (h [VString t]
        (fold (\<lambda>wr w. snd (try_invoke L wr (Some [VConstCharPtr t]) w)) earlier (world s)))"
    by (simp add: t w)
  from a b d try_invoke_text [of p wr L t w] assms show ?thesis
    by (simp add: s1_def earlier_def)
qed

theorem text_conversion_witness:
  "decay_t (ByConstRef TString) = TString \<and>
   try_invoke example_conversions (example_wrapper [ByConstRef TString])
     (Some [VConstCharPtr ''World'']) [] = (Inr True, [(''h'', [VString ''World''])]) \<and>
   world (snd (publish example_conversions ''greet'' [VConstCharPtr ''World'']
     (snd (subscribe ''greet'' ([ByConstRef TString], recording ''h'') (new_EventBus False [])))))
   = [(''h'', [VString ''World''])]"
proof -
  have h: "decay_t (ByConstRef TString) = TString" by simp
  show ?thesis
    using text_conversion [OF h, of example_conversions "''World''"
        "example_wrapper [ByConstRef TString]" "[]"
        "''greet''" "recording ''h''" "new_EventBus False []"]
    by (simp add: new_EventBus_def recording_def example_wrapper_def)
qed

section \<open>The registry\<close>

lemma erase_first_None:
  "erase_first cid cbs = None \<longleftrightarrow> cid \<notin> get_id ` set cbs"
  by (induction cbs) auto

lemma erase_first_Some:
  "erase_first cid cbs = Some cbs' \<Longrightarrow>
     \<exists>pre wr post. cbs = pre @ wr # post \<and> get_id wr = cid \<and> cid \<notin> get_id ` set pre \<and>
        cbs' = pre @ post"
proof (induction cbs arbitrary: cbs')
  case Nil
  then show ?case by simp
next
  case (Cons a cbs)
  show ?case
  proof (cases "get_id a = cid")
    case True
    with Cons.prems have "a # cbs = [] @ a # cbs' \<and> get_id a = cid \<and> cid \<notin> get_id ` set [] \<and> cbs' = [] @ cbs'"
      by simp
    then show ?thesis by blast
  next
    case False
    with Cons.prems obtain r where r: "erase_first cid cbs = Some r" "cbs' = a # r"
      by auto
    from Cons.IH [OF r(1)] obtain pre wr post where
      "cbs = pre @ wr # post" "get_id wr = cid" "cid \<notin> get_id ` set pre" "r = pre @ post"
      by blast
    with False r have "a # cbs = (a # pre) @ wr # post \<and> get_id wr = cid \<and>
        cid \<notin> get_id ` set (a # pre) \<and> cbs' = (a # pre) @ post"
      by auto
    then show ?thesis by blast
  qed
qed

lemma erase_first_distinct:
  assumes "erase_first cid cbs = Some cbs'" and "distinct (map get_id cbs)"
  shows "distinct (map get_id cbs') \<and> set cbs' \<subseteq> set cbs \<and> cid \<notin> get_id ` set cbs'"
proof -
  from erase_first_Some [OF assms(1)] obtain pre wr post where
    "cbs = pre @ wr # post" "get_id wr = cid" "cid \<notin> get_id ` set pre" "cbs' = pre @ post"
    by blast
  with assms(2) show ?thesis by auto
qed

lemma unsubscribe_cases:
  "(\<forall>callbacks. callbacks_map s eventName = Some callbacks \<and> cid \<in> get_id ` set callbacks \<longrightarrow>
      (\<exists>pre wr post. callbacks = pre @ wr # post \<and> get_id wr = cid \<and>
          cid \<notin> get_id ` set pre \<and>
          unsubscribe eventName cid s =
            (True, s\<lparr>callbacks_map := (callbacks_map s)(eventName \<mapsto> pre @ post)\<rparr>)) \<and>
      (distinct (map get_id callbacks) \<longrightarrow>
          fst (unsubscribe eventName cid (snd (unsubscribe eventName cid s))) = False)) \<and>
   (callbacks_map s eventName = None \<or>
    (\<exists>callbacks. callbacks_map s eventName = Some callbacks \<and> cid \<notin> get_id ` set callbacks)
      \<longrightarrow> unsubscribe eventName cid s = (False, s))"
proof (intro conjI allI impI)
  fix callbacks
  assume a: "callbacks_map s eventName = Some callbacks \<and> cid \<in> get_id ` set callbacks"
  then obtain cbs' where e: "erase_first cid callbacks = Some cbs'"
    using erase_first_None [of cid callbacks] by (cases "erase_first cid callbacks") auto
  from erase_first_Some [OF e] obtain pre wr post where
    p: "callbacks = pre @ wr # post" "get_id wr = cid" "cid \<notin> get_id ` set pre"
      "cbs' = pre @ post"
    by blast
  have u: "unsubscribe eventName cid s =
      (True, s\<lparr>callbacks_map := (callbacks_map s)(eventName \<mapsto> pre @ post)\<rparr>)"
    using a e p by (simp add: unsubscribe_def)
  with p show "\<exists>pre wr post. callbacks = pre @ wr # post \<and> get_id wr = cid \<and>
          cid \<notin> get_id ` set pre \<and>
          unsubscribe eventName cid s =
            (True, s\<lparr>callbacks_map := (callbacks_map s)(eventName \<mapsto> pre @ post)\<rparr>)"
    by blast
  assume d: "distinct (map get_id callbacks)"
  from erase_first_distinct [OF e d] have "cid \<notin> get_id ` set cbs'" by simp
  then have "erase_first cid cbs' = None" by (simp add: erase_first_None)
  with u p show "fst (unsubscribe eventName cid (snd (unsubscribe eventName cid s))) = False"
    by (simp add: unsubscribe_def)
next
  assume "callbacks_map s eventName = None \<or>
    (\<exists>callbacks. callbacks_map s eventName = Some callbacks \<and> cid \<notin> get_id ` set callbacks)"
  then show "unsubscribe eventName cid s = (False, s)"
    by (auto simp: unsubscribe_def erase_first_None [symmetric])
qed


section \<open>Subscription ids\<close>

lemma subscribe_next_id:
  "fst (subscribe eventName cb s) = next_id s + 1 \<and>
   next_id (snd (subscribe eventName cb s)) = next_id s + 1"
  by (simp add: subscribe_def Let_def)

lemma unsubscribe_next_id: "next_id (snd (unsubscribe eventName cid s)) = next_id s"
  by (simp add: unsubscribe_def split: option.splits)

lemma unsubscribe_all_next_id: "next_id (snd (unsubscribe_all eventName s)) = next_id s"
  by (simp add: unsubscribe_all_def split: option.splits)

lemma run_call_ids:
  "fst (run_call L c s) = (if is_subscribe c then [next_id s + 1] else []) \<and>
   next_id (snd (run_call L c s)) = (if is_subscribe c then next_id s + 1 else next_id s)"
proof (cases c)
  case (Subscribe e cb)
  then show ?thesis using subscribe_next_id [of e cb s] by (auto split: prod.splits)
next
  case (Publish e a)
  then show ?thesis using publish_returns [of L e a s] by auto
next
  case (PublishIfMinSubscribers e n a)
  then show ?thesis using publish_if_min_subscribers_returns [of L e n a s] by auto
qed (simp_all add: unsubscribe_next_id unsubscribe_all_next_id clear_def setVerboseLogging_def)

lemma map_upt_shift:
  "map f [Suc 1..<Suc (Suc k)] = map (\<lambda>i. f (Suc i)) [1..<Suc k]"
  by (simp add: map_Suc_upt [symmetric] del: upt_Suc)

lemma run_ids:
  "fst (run L calls s) =
     map (\<lambda>i. next_id s + of_nat i) [1..<Suc (length (filter is_subscribe calls))] \<and>
   next_id (snd (run L calls s)) = next_id s + of_nat (length (filter is_subscribe calls))"
proof (induction calls arbitrary: s)
  case Nil
  show ?case by simp
next
  case (Cons c calls)
  obtain ids s' where c: "run_call L c s = (ids, s')" by (cases "run_call L c s")
  with run_call_ids [of L c s]
  have i: "ids = (if is_subscribe c then [next_id s + 1] else [])"
    and n: "next_id s' = (if is_subscribe c then next_id s + 1 else next_id s)"
    by simp_all
  show ?case
  proof (cases "is_subscribe c")
    case True
    have "[1..<Suc (Suc (length (filter is_subscribe calls)))] =
        1 # [Suc 1..<Suc (Suc (length (filter is_subscribe calls)))]"
      by (simp add: upt_conv_Cons del: upt_Suc)
    then have "map (\<lambda>i. next_id s + of_nat i) [1..<Suc (Suc (length (filter is_subscribe calls)))] =
        (next_id s + 1) # map (\<lambda>i. next_id s + 1 + of_nat i) [1..<Suc (length (filter is_subscribe calls))]"
      using map_upt_shift [of "\<lambda>i. next_id s + of_nat i" "length (filter is_subscribe calls)"]
      by (simp add: add.assoc del: upt_Suc)
    with True c i n Cons.IH [of s'] show ?thesis
      by (auto simp: add.assoc split: prod.splits simp del: upt_Suc)
  next
    case False
    with c i n Cons.IH [of s'] show ?thesis
      by (auto split: prod.splits simp del: upt_Suc)
  qed
qed

lemma of_nat_less_64:
  "i < j \<Longrightarrow> j < 2 ^ 64 \<Longrightarrow> (of_nat i :: 64 word) < of_nat j"
  by (simp add: word_of_nat_less_iff take_bit_nat_eq_self)

lemma ids_increasing:
  assumes "k < 2 ^ 64"
  shows "sorted_wrt (<) (map (of_nat :: nat \<Rightarrow> 64 word) [1..<Suc k])"
proof -
  have "sorted_wrt (\<lambda>i j. (of_nat i :: 64 word) < of_nat j) [1..<Suc k]"
  proof (rule sorted_wrt_mono_rel [of _ "(<)"])
    fix i j
    assume "i \<in> set [1..<Suc k]" "j \<in> set [1..<Suc k]" "i < j"
    with assms show "(of_nat i :: 64 word) < of_nat j"
      by (intro of_nat_less_64) auto
  next
    show "sorted_wrt (<) [1..<Suc k]" by (rule sorted_wrt_upt)
  qed
  then show ?thesis by (simp add: sorted_wrt_map del: upt_Suc)
qed

text \<open>
  C4, as the code has it. On a new bus, the calls of \<open>subscribe\<close> among any sequence of
  calls that holds fewer than \<open>2 ^ 64\<close> of them return the ids 1, 2, 3, ... in the order
  of issue: strictly increasing and pairwise distinct.
\<close>

theorem subscribe_ids:
  assumes "length (filter is_subscribe calls) < 2 ^ 64"
  shows "fst (run L calls (new_EventBus verbose w)) =
      map of_nat [1..<Suc (length (filter is_subscribe calls))] \<and>
    sorted_wrt (<) (fst (run L calls (new_EventBus verbose w))) \<and>
    distinct (fst (run L calls (new_EventBus verbose w)))"
proof -
  have e: "fst (run L calls (new_EventBus verbose w)) =
      map of_nat [1..<Suc (length (filter is_subscribe calls))]"
    using run_ids [of L calls "new_EventBus verbose w"] by (simp add: new_EventBus_def del: upt_Suc)
  have s: "sorted_wrt (<) (fst (run L calls (new_EventBus verbose w)))"
    unfolding e using assms by (rule ids_increasing)
  then have "distinct (fst (run L calls (new_EventBus verbose w)))"
    by (simp add: strict_sorted_iff)
  with e s show ?thesis by simp
qed


theorem subscribe_ids_witness:
  "fst (run example_conversions example_calls (new_EventBus False [])) = [1, 2, 3] \<and>
   sorted_wrt (<) (fst (run example_conversions example_calls (new_EventBus False []))) \<and>
   distinct (fst (run example_conversions example_calls (new_EventBus False [])))"
proof -
  have h: "length (filter is_subscribe example_calls) < 2 ^ 64"
    by (simp add: example_calls_def)
  have "map (of_nat :: nat \<Rightarrow> 64 word) [1..<Suc (length (filter is_subscribe example_calls))] = [1, 2, 3]"
    by (simp add: example_calls_def upt_rec)
  with subscribe_ids [OF h, of example_conversions False "[]"] show ?thesis by simp
qed

lemma wrap_not_distinct:
  assumes "(of_nat n :: 64 word) = 0" and "0 < n"
  shows "\<not> distinct (map (\<lambda>i. a + of_nat i :: 64 word) [1..<Suc (n + 1)])"
proof
  assume "distinct (map (\<lambda>i. a + of_nat i :: 64 word) [1..<Suc (n + 1)])"
  then have i: "inj_on (\<lambda>i. a + of_nat i :: 64 word) (set [1..<Suc (n + 1)])"
    by (simp only: distinct_map)
  have m: "1 \<in> set [1..<Suc (n + 1)]" "n + 1 \<in> set [1..<Suc (n + 1)]"
    using assms(2) by auto
  have e: "a + of_nat 1 = a + (of_nat (n + 1) :: 64 word)"
    using assms(1) by simp
  have "1 = n + 1"
    by (rule inj_onD [OF i e m])
  with assms(2) show False by simp
qed

lemma filter_subscribe_rounds:
  "length (filter is_subscribe
     (concat (replicate n [Subscribe e cb, UnsubscribeAll e]) @ [Subscribe e cb])) = n + 1"
  by (induction n) simp_all

lemma subscribe_rounds_wrap:
  assumes "(of_nat n :: 64 word) = 0" and "0 < n"
  shows "\<not> distinct (fst (run L
     (concat (replicate n [Subscribe e cb, UnsubscribeAll e]) @ [Subscribe e cb]) s))"
proof -
  have "fst (run L (concat (replicate n [Subscribe e cb, UnsubscribeAll e]) @ [Subscribe e cb]) s) =
      map (\<lambda>i. next_id s + of_nat i) [1..<Suc (n + 1)]"
    using run_ids [of L "concat (replicate n [Subscribe e cb, UnsubscribeAll e]) @ [Subscribe e cb]" s]
    by (simp only: filter_subscribe_rounds)
  with wrap_not_distinct [OF assms] show ?thesis by simp
qed

text \<open>
  C4 as stated fails when the 64-bit counter wraps. A program that subscribes to an
  event and removes the subscription again, \<open>2 ^ 64\<close> times, and then subscribes once
  more is given ids that are not pairwise distinct: the last id is 1, as the first.
\<close>

theorem subscribe_ids_counterexample:
  "\<not> distinct (fst (run example_conversions
        (concat (replicate (2 ^ 64)
           [Subscribe ''e'' ([], recording ''h''), UnsubscribeAll ''e'']) @
         [Subscribe ''e'' ([], recording ''h'')])
        (new_EventBus False [])))"
  by (rule subscribe_rounds_wrap) simp_all

section \<open>The ids held by the registry\<close>

text \<open>
  Every call keeps the invariant as long as the counter does not wrap, so it holds of
  every bus that a sequence of calls with fewer than \<open>2 ^ 64\<close> calls of \<open>subscribe\<close>
  builds from a new one: the ids within an entry are pairwise distinct.
\<close>

lemma unat_next:
  "unat (n :: 64 word) + 1 < 2 ^ 64 \<Longrightarrow> unat (n + 1) = unat n + 1"
  by (simp add: unat_word_ariths)

lemma subscribe_keeps_ids_unique:
  assumes "ids_unique s" and "unat (next_id s) + 1 < 2 ^ 64"
  shows "ids_unique (snd (subscribe eventName cb s))"
proof -
  have n: "unat (next_id s + 1) = unat (next_id s) + 1"
    using assms(2) by (rule unat_next)
  define entry where
    "entry = (case callbacks_map s eventName of None \<Rightarrow> [] | Some callbacks \<Rightarrow> callbacks)"
  have e: "distinct (map get_id entry) \<and> (\<forall>wr \<in> set entry. unat (get_id wr) \<le> unat (next_id s))"
    using assms(1) by (auto simp: ids_unique_def entry_def split: option.splits)
  define wrapper where
    "wrapper = \<lparr>wrapper_id = next_id s + 1, wrapper_args = fst cb, callback = snd cb\<rparr>"
  have w: "unat (get_id wrapper) = unat (next_id s) + 1"
    by (simp add: wrapper_def get_id_def n)
  have m: "callbacks_map (snd (subscribe eventName cb s)) =
      (callbacks_map s)(eventName \<mapsto> entry @ [wrapper])"
    and i: "next_id (snd (subscribe eventName cb s)) = next_id s + 1"
    by (simp_all add: subscribe_def Let_def entry_def wrapper_def)
  have "get_id wrapper \<notin> get_id ` set entry"
  proof
    assume "get_id wrapper \<in> get_id ` set entry"
    then obtain x where "x \<in> set entry" "get_id x = get_id wrapper" by auto
    with e w show False by fastforce
  qed
  with e w have new: "distinct (map get_id (entry @ [wrapper])) \<and>
      (\<forall>wr \<in> set (entry @ [wrapper]). unat (get_id wr) \<le> unat (next_id s) + 1)"
    by auto
  show ?thesis
    unfolding ids_unique_def m i n
  proof (intro allI impI)
    fix e' cbs
    assume a: "((callbacks_map s)(eventName \<mapsto> entry @ [wrapper])) e' = Some cbs"
    show "distinct (map get_id cbs) \<and> (\<forall>wr\<in>set cbs. unat (get_id wr) \<le> unat (next_id s) + 1)"
    proof (cases "e' = eventName")
      case True
      with a new show ?thesis by simp
    next
      case False
      with a assms(1) show ?thesis by (fastforce simp: ids_unique_def)
    qed
  qed
qed

lemma unsubscribe_keeps_ids_unique:
  assumes "ids_unique s"
  shows "ids_unique (snd (unsubscribe eventName cid s))"
proof (cases "callbacks_map s eventName")
  case None
  with assms show ?thesis by (simp add: unsubscribe_def)
next
  case (Some cbs)
  show ?thesis
  proof (cases "erase_first cid cbs")
    case None
    with Some assms show ?thesis by (simp add: unsubscribe_def)
  next
    case (Some cbs')
    from assms \<open>callbacks_map s eventName = Some cbs\<close>
    have d: "distinct (map get_id cbs)" and b: "\<forall>wr \<in> set cbs. unat (get_id wr) \<le> unat (next_id s)"
      by (auto simp: ids_unique_def)
    from erase_first_distinct [OF Some d] b
    have new: "distinct (map get_id cbs') \<and> (\<forall>wr \<in> set cbs'. unat (get_id wr) \<le> unat (next_id s))"
      by auto
    have u: "snd (unsubscribe eventName cid s) =
        s\<lparr>callbacks_map := (callbacks_map s)(eventName \<mapsto> cbs')\<rparr>"
      using Some \<open>callbacks_map s eventName = Some cbs\<close> by (simp add: unsubscribe_def)
    show ?thesis
      unfolding u ids_unique_def
    proof (intro allI impI)
      fix e' x
      assume a: "callbacks_map (s\<lparr>callbacks_map := (callbacks_map s)(eventName \<mapsto> cbs')\<rparr>) e' = Some x"
      show "distinct (map get_id x) \<and>
          (\<forall>wr\<in>set x. unat (get_id wr) \<le> unat (next_id (s\<lparr>callbacks_map := (callbacks_map s)(eventName \<mapsto> cbs')\<rparr>)))"
      proof (cases "e' = eventName")
        case True
        with a new show ?thesis by simp
      next
        case False
        with a assms show ?thesis by (simp add: ids_unique_def)
      qed
    qed
  qed
qed

lemma unsubscribe_all_keeps_ids_unique:
  "ids_unique s \<Longrightarrow> ids_unique (snd (unsubscribe_all eventName s))"
  by (auto simp: ids_unique_def unsubscribe_all_def split: option.splits if_splits)

lemma run_call_keeps_ids_unique:
  assumes "ids_unique s" and "is_subscribe c \<longrightarrow> unat (next_id s) + 1 < 2 ^ 64"
  shows "ids_unique (snd (run_call L c s))"
proof (cases c)
  case (Subscribe e cb)
  have "snd (run_call L (Subscribe e cb) s) = snd (subscribe e cb s)"
    by (simp split: prod.splits)
  moreover have "unat (next_id s) + 1 < 2 ^ 64"
    using assms(2) Subscribe by (simp only: is_subscribe.simps simp_thms)
  then have "ids_unique (snd (subscribe e cb s))"
    by (rule subscribe_keeps_ids_unique [OF assms(1)])
  ultimately show ?thesis using Subscribe by (simp only:)
next
  case (Unsubscribe e cid)
  with assms(1) show ?thesis by (simp add: unsubscribe_keeps_ids_unique)
next
  case (UnsubscribeAll e)
  with assms(1) show ?thesis by (simp add: unsubscribe_all_keeps_ids_unique)
next
  case (Publish e a)
  with assms(1) publish_returns [of L e a s] show ?thesis
    by (auto simp: ids_unique_def)
next
  case (PublishIfMinSubscribers e n a)
  with assms(1) publish_if_min_subscribers_returns [of L e n a s] show ?thesis
    by (auto simp: ids_unique_def)
next
  case Clear
  then show ?thesis by (simp add: clear_def ids_unique_def)
next
  case (SetVerboseLogging v)
  with assms(1) show ?thesis by (simp add: setVerboseLogging_def ids_unique_def)
qed

lemma run_keeps_ids_unique:
  assumes "ids_unique s"
    and "unat (next_id s) + length (filter is_subscribe calls) < 2 ^ 64"
  shows "ids_unique (snd (run L calls s))"
  using assms
proof (induction calls arbitrary: s)
  case Nil
  then show ?case by simp
next
  case (Cons c calls)
  obtain ids s' where c: "run_call L c s = (ids, s')" by (cases "run_call L c s")
  have p: "is_subscribe c \<longrightarrow> unat (next_id s) + 1 < 2 ^ 64"
  proof
    assume "is_subscribe c"
    then have "length (filter is_subscribe (c # calls)) = length (filter is_subscribe calls) + 1"
      by simp
    with Cons.prems(2) show "unat (next_id s) + 1 < 2 ^ 64"
      by linarith
  qed
  have u: "ids_unique s'"
    using run_call_keeps_ids_unique [OF Cons.prems(1) p, of L] c by simp
  have n: "next_id s' = (if is_subscribe c then next_id s + 1 else next_id s)"
    using run_call_ids [of L c s] c by simp
  have "unat (next_id s') + length (filter is_subscribe calls) < 2 ^ 64"
  proof (cases "is_subscribe c")
    case True
    with p have "unat (next_id s + 1) = unat (next_id s) + 1" by (simp only: unat_next)
    moreover from True
    have "length (filter is_subscribe (c # calls)) = length (filter is_subscribe calls) + 1"
      by simp
    moreover from True n have "next_id s' = next_id s + 1" by simp
    ultimately show ?thesis using Cons.prems(2) by (simp only:)
  next
    case False
    then have "length (filter is_subscribe (c # calls)) = length (filter is_subscribe calls)"
      by simp
    moreover from False n have "next_id s' = next_id s" by simp
    ultimately show ?thesis using Cons.prems(2) by (simp only:)
  qed
  with Cons.IH [OF u] have "ids_unique (snd (run L calls s'))" .
  with c show ?case by (auto split: prod.splits)
qed

lemma reachable_ids_distinct:
  assumes "length (filter is_subscribe calls) < 2 ^ 64"
    and "callbacks_map (snd (run L calls (new_EventBus verbose w))) eventName = Some callbacks"
  shows "distinct (map get_id callbacks)"
proof -
  have "ids_unique (new_EventBus verbose w)"
    by (simp add: ids_unique_def new_EventBus_def)
  moreover have "unat (next_id (new_EventBus verbose w)) + length (filter is_subscribe calls) < 2 ^ 64"
    using assms(1) by (simp add: new_EventBus_def)
  ultimately have "ids_unique (snd (run L calls (new_EventBus verbose w)))"
    by (rule run_keeps_ids_unique)
  with assms(2) show ?thesis by (simp add: ids_unique_def)
qed

section \<open>Unsubscription\<close>

text \<open>
  C6, as the code has it. When the event has an entry that holds a wrapper of the given
  id, \<open>unsubscribe\<close> returns true and the entry becomes the list without the first
  wrapper of that id, the wrappers before and after it in their order; every other
  entry and every other member of the bus is as before. When the event has no entry,
  or its entry holds no wrapper of the id, it returns false and the bus is unchanged.
  A second call with the same arguments after a successful one returns false when the
  ids within the entry are pairwise distinct, and so on every bus that a sequence of
  calls with fewer than \<open>2 ^ 64\<close> calls of \<open>subscribe\<close> builds from a new one.
\<close>

theorem unsubscribe_spec:
  "(\<forall>callbacks. callbacks_map s eventName = Some callbacks \<and> cid \<in> get_id ` set callbacks \<longrightarrow>
      (\<exists>pre wr post. callbacks = pre @ wr # post \<and> get_id wr = cid \<and>
          cid \<notin> get_id ` set pre \<and>
          unsubscribe eventName cid s =
            (True, s\<lparr>callbacks_map := (callbacks_map s)(eventName \<mapsto> pre @ post)\<rparr>)) \<and>
      (distinct (map get_id callbacks) \<longrightarrow>
          fst (unsubscribe eventName cid (snd (unsubscribe eventName cid s))) = False)) \<and>
   (callbacks_map s eventName = None \<or>
    (\<exists>callbacks. callbacks_map s eventName = Some callbacks \<and> cid \<notin> get_id ` set callbacks)
      \<longrightarrow> unsubscribe eventName cid s = (False, s)) \<and>
   (s = snd (run L calls (new_EventBus verbose w)) \<and>
    length (filter is_subscribe calls) < 2 ^ 64 \<and>
    fst (unsubscribe eventName cid s) = True
      \<longrightarrow> fst (unsubscribe eventName cid (snd (unsubscribe eventName cid s))) = False)"
proof (intro conjI impI)
  from unsubscribe_cases [of s eventName cid]
  show "\<forall>callbacks. callbacks_map s eventName = Some callbacks \<and> cid \<in> get_id ` set callbacks \<longrightarrow>
      (\<exists>pre wr post. callbacks = pre @ wr # post \<and> get_id wr = cid \<and>
          cid \<notin> get_id ` set pre \<and>
          unsubscribe eventName cid s =
            (True, s\<lparr>callbacks_map := (callbacks_map s)(eventName \<mapsto> pre @ post)\<rparr>)) \<and>
      (distinct (map get_id callbacks) \<longrightarrow>
          fst (unsubscribe eventName cid (snd (unsubscribe eventName cid s))) = False)"
    by (rule conjunct1)
next
  assume "callbacks_map s eventName = None \<or>
    (\<exists>callbacks. callbacks_map s eventName = Some callbacks \<and> cid \<notin> get_id ` set callbacks)"
  with unsubscribe_cases [of s eventName cid]
  show "unsubscribe eventName cid s = (False, s)" by blast
next
  assume a: "s = snd (run L calls (new_EventBus verbose w)) \<and>
    length (filter is_subscribe calls) < 2 ^ 64 \<and>
    fst (unsubscribe eventName cid s) = True"
  then have r: "s = snd (run L calls (new_EventBus verbose w))"
    and b: "length (filter is_subscribe calls) < 2 ^ 64"
    and t: "fst (unsubscribe eventName cid s)"
    by blast+
  from t obtain callbacks where m: "callbacks_map s eventName = Some callbacks"
    by (cases "callbacks_map s eventName") (auto simp: unsubscribe_def)
  with t have "erase_first cid callbacks \<noteq> None"
    by (auto simp: unsubscribe_def split: option.splits)
  then have i: "cid \<in> get_id ` set callbacks"
    by (simp add: erase_first_None)
  from m have "callbacks_map (snd (run L calls (new_EventBus verbose w))) eventName =
      Some callbacks"
    by (simp only: r [symmetric])
  with b have "distinct (map get_id callbacks)"
    by (rule reachable_ids_distinct)
  with m i unsubscribe_cases [of s eventName cid]
  show "fst (unsubscribe eventName cid (snd (unsubscribe eventName cid s))) = False"
    by blast
qed

theorem unsubscribe_spec_witness:
  "fst (unsubscribe ''e'' 1 two_subscribers) = True \<and>
   map_option (map wrapper_id)
     (callbacks_map (snd (unsubscribe ''e'' 1 two_subscribers)) ''e'') = Some [2] \<and>
   fst (unsubscribe ''e'' 1 (snd (unsubscribe ''e'' 1 two_subscribers))) = False \<and>
   fst (unsubscribe ''e'' 2 (snd (unsubscribe ''e'' 2 two_subscribers))) = False \<and>
   unsubscribe ''e'' 7 two_subscribers = (False, two_subscribers) \<and>
   unsubscribe ''other'' 1 two_subscribers = (False, two_subscribers)"
proof -
  note m = two_subscribers_map
  have none: "callbacks_map two_subscribers ''other'' = None"
    by (simp add: two_subscribers_def subscribe_def new_EventBus_def Let_def)
  have a: "fst (unsubscribe ''e'' 1 two_subscribers) = True"
    "map_option (map wrapper_id)
       (callbacks_map (snd (unsubscribe ''e'' 1 two_subscribers)) ''e'') = Some [2]"
    by (simp_all add: unsubscribe_def m get_id_def)
  have r: "two_subscribers =
      snd (run example_conversions
        [Subscribe ''e'' ([], throwing ''first'' (StdException ''boom'')),
         Subscribe ''e'' ([], recording ''second'')]
        (new_EventBus False []))"
    by (simp only: two_subscribers_def)
  have l: "length (filter is_subscribe
        [Subscribe ''e'' ([], throwing ''first'' (StdException ''boom'')),
         Subscribe ''e'' ([], recording ''second'') :: trace call]) < 2 ^ 64"
    by simp
  have b: "fst (unsubscribe ''e'' 1 (snd (unsubscribe ''e'' 1 two_subscribers))) = False"
    using unsubscribe_spec [of two_subscribers "''e''" 1 example_conversions
        "[Subscribe ''e'' ([], throwing ''first'' (StdException ''boom'')),
          Subscribe ''e'' ([], recording ''second'')]" False "[]"] r l a(1)
    by blast
  have b2: "fst (unsubscribe ''e'' 2 (snd (unsubscribe ''e'' 2 two_subscribers))) = False"
    using unsubscribe_spec [of two_subscribers "''e''" 2]
    by (simp add: m get_id_def)
  have c: "unsubscribe ''e'' 7 two_subscribers = (False, two_subscribers)"
    using unsubscribe_spec [of two_subscribers "''e''" 7]
    by (simp add: m get_id_def)
  have d: "unsubscribe ''other'' 1 two_subscribers = (False, two_subscribers)"
    using unsubscribe_spec [of two_subscribers "''other''" 1]
    by (simp add: none)
  from a b b2 c d show ?thesis by simp
qed

lemma snd_run_Cons:
  "snd (run L (c # cs) s) = snd (run L cs (snd (run_call L c s)))"
  by (simp split: prod.splits)

lemma snd_run_single: "snd (run L [c] s) = snd (run_call L c s)"
  by (simp split: prod.splits)

lemma snd_run_call_subscribe:
  "snd (run_call L (Subscribe e cb) s) = snd (subscribe e cb s)"
  by (simp split: prod.splits)

lemma snd_run_append:
  "snd (run L (xs @ ys) s) = snd (run L ys (snd (run L xs s)))"
proof (induction xs arbitrary: s)
  case Nil
  show ?case by simp
next
  case (Cons c xs)
  have "snd (run L ((c # xs) @ ys) s) = snd (run L (xs @ ys) (snd (run_call L c s)))"
    by (simp only: append_Cons snd_run_Cons)
  with Cons.IH [of "snd (run_call L c s)"] show ?case
    by (simp only: snd_run_Cons)
qed

lemma subscribe_unsubscribe_all:
  assumes "callbacks_map s f = None" and "\<not> verbose_logging s"
  shows "snd (run L [Subscribe f cb, UnsubscribeAll f] s) = s\<lparr>next_id := next_id s + 1\<rparr>"
proof -
  have "((callbacks_map s)(f \<mapsto> x))(f := None) = callbacks_map s" for x
    using assms(1) by (simp add: fun_upd_idem)
  with assms show ?thesis
    by (simp add: subscribe_def unsubscribe_all_def Let_def)
qed

lemma subscribe_unsubscribe_all_rounds:
  assumes "callbacks_map s f = None" and "\<not> verbose_logging s"
  shows "snd (run L (concat (replicate n [Subscribe f cb, UnsubscribeAll f])) s) =
     s\<lparr>next_id := next_id s + of_nat n\<rparr>"
  using assms
proof (induction n arbitrary: s)
  case 0
  show ?case by simp
next
  case (Suc n)
  have "snd (run L (concat (replicate (Suc n) [Subscribe f cb, UnsubscribeAll f])) s) =
      snd (run L (concat (replicate n [Subscribe f cb, UnsubscribeAll f]))
        (snd (run L [Subscribe f cb, UnsubscribeAll f] s)))"
    using snd_run_append [of L "[Subscribe f cb, UnsubscribeAll f]"
        "concat (replicate n [Subscribe f cb, UnsubscribeAll f])" s]
    by (simp del: run.simps)
  also have "\<dots> = snd (run L (concat (replicate n [Subscribe f cb, UnsubscribeAll f]))
        (s\<lparr>next_id := next_id s + 1\<rparr>))"
    by (simp only: subscribe_unsubscribe_all [OF Suc.prems])
  also have "\<dots> = s\<lparr>next_id := next_id s + 1\<rparr>\<lparr>next_id := next_id s + 1 + of_nat n\<rparr>"
    using Suc.IH [of "s\<lparr>next_id := next_id s + 1\<rparr>"] Suc.prems by simp
  finally show ?case by (simp add: add.assoc)
qed

lemma wrapped_ids_repeat:
  assumes "(of_nat n :: 64 word) + 1 = 0" and "e \<noteq> f"
  shows "fst (unsubscribe e 1 (snd (run L
        (Subscribe e cb # concat (replicate n [Subscribe f cb', UnsubscribeAll f]) @
         [Subscribe e cb''])
        (new_EventBus False w)))) = True \<and>
     fst (unsubscribe e 1 (snd (unsubscribe e 1 (snd (run L
        (Subscribe e cb # concat (replicate n [Subscribe f cb', UnsubscribeAll f]) @
         [Subscribe e cb''])
        (new_EventBus False w)))))) = True"
proof -
  define s1 where "s1 = snd (subscribe e cb (new_EventBus False w))"
  define w1 :: "'a CallbackWrapper" where
    "w1 = \<lparr>wrapper_id = 1, wrapper_args = fst cb, callback = snd cb\<rparr>"
  define w2 :: "'a CallbackWrapper" where
    "w2 = \<lparr>wrapper_id = 1, wrapper_args = fst cb'', callback = snd cb''\<rparr>"
  have s1: "callbacks_map s1 = [e \<mapsto> [w1]]" "next_id s1 = 1" "\<not> verbose_logging s1"
    by (simp_all add: s1_def subscribe_def new_EventBus_def Let_def w1_def)
  then have f: "callbacks_map s1 f = None"
    using assms(2) by simp
  define s2 where "s2 = s1\<lparr>next_id := next_id s1 + of_nat n\<rparr>"
  have "(1 :: 64 word) + of_nat n = 0"
    using assms(1) by (simp add: add.commute)
  then have s2: "callbacks_map s2 = [e \<mapsto> [w1]]" "next_id s2 = 0" "\<not> verbose_logging s2"
    using s1 by (simp_all add: s2_def)
  define s3 where "s3 = snd (subscribe e cb'' s2)"
  have s3: "callbacks_map s3 e = Some [w1, w2]"
    using s2 by (simp add: s3_def subscribe_def Let_def w2_def)
  have "snd (run L (Subscribe e cb #
        concat (replicate n [Subscribe f cb', UnsubscribeAll f]) @ [Subscribe e cb''])
        (new_EventBus False w)) =
      snd (run L [Subscribe e cb''] (snd (run L
        (concat (replicate n [Subscribe f cb', UnsubscribeAll f])) s1)))"
    by (simp only: snd_run_Cons snd_run_call_subscribe snd_run_append s1_def)
  also have "\<dots> = snd (run L [Subscribe e cb''] s2)"
    by (simp only: subscribe_unsubscribe_all_rounds [OF f s1(3)] s2_def)
  also have "\<dots> = s3"
    by (simp only: snd_run_single snd_run_call_subscribe s3_def)
  finally have r: "snd (run L (Subscribe e cb #
        concat (replicate n [Subscribe f cb', UnsubscribeAll f]) @ [Subscribe e cb''])
        (new_EventBus False w)) = s3" .
  have "fst (unsubscribe e 1 s3) = True \<and>
      fst (unsubscribe e 1 (snd (unsubscribe e 1 s3))) = True"
    using s3 by (simp add: unsubscribe_def get_id_def w1_def w2_def)
  then show ?thesis by (simp only: r)
qed

text \<open>
  C6 as stated fails once the id counter has wrapped: the program \<open>wrapped_calls\<close>
  leaves two subscriptions of the id 1 under \<open>''e''\<close>, and \<open>unsubscribe\<close> of that id
  returns true, and true again on the repeated call.
\<close>

theorem unsubscribe_spec_counterexample:
  "fst (unsubscribe ''e'' 1
     (snd (run example_conversions wrapped_calls (new_EventBus False [])))) = True \<and>
   fst (unsubscribe ''e'' 1 (snd (unsubscribe ''e'' 1
     (snd (run example_conversions wrapped_calls (new_EventBus False [])))))) = True"
  unfolding wrapped_calls_def
  by (rule wrapped_ids_repeat) simp_all


section \<open>Read-only queries\<close>

lemma entries_Nil: "entries m [] = []"
  by (simp add: entries_def)

lemma entries_Cons:
  "entries m (k # ord) = (case m k of None \<Rightarrow> [] | Some v \<Rightarrow> [(k, v)]) @ entries m ord"
  by (simp add: entries_def)

lemma set_entries: "set (entries m ord) = {(k, v). k \<in> set ord \<and> m k = Some v}"
  by (induction ord) (auto simp: entries_Nil entries_Cons split: option.splits)

lemma fold_event_names:
  "fold (\<lambda>pair event_names. if snd pair \<noteq> [] then event_names @ [fst pair] else event_names)
       ps acc = acc @ map fst (filter (\<lambda>p. snd p \<noteq> []) ps)"
  by (induction ps arbitrary: acc) simp_all

lemma getAllEventNames_filter:
  "getAllEventNames ord s = filter (isEventRegistered s) ord"
proof -
  have "map fst (filter (\<lambda>p. snd p \<noteq> []) (entries (callbacks_map s) ord)) =
      filter (isEventRegistered s) ord"
    by (induction ord)
      (auto simp: entries_Nil entries_Cons isEventRegistered_def split: option.splits)
  then show ?thesis by (simp add: getAllEventNames_def fold_event_names)
qed

lemma getStats_step_empty: "getStats_step (k, []) stats = stats"
  by (simp add: getStats_step_def)

lemma fold_getStats_step_filter:
  "\<forall>p \<in> set ps. \<not> Q p \<longrightarrow> snd p = [] \<Longrightarrow>
     fold getStats_step (filter Q ps) a = fold getStats_step ps a"
proof (induction ps arbitrary: a)
  case Nil
  show ?case by simp
next
  case (Cons p ps)
  show ?case
  proof (cases "Q p")
    case True
    with Cons show ?thesis by simp
  next
    case False
    with Cons.prems have "snd p = []" by simp
    then have "getStats_step p a = a"
      using getStats_step_empty [of "fst p" a] by (cases p) simp
    with False Cons show ?thesis by simp
  qed
qed

lemma entries_removed:
  "entries (m(e := None)) (removeAll e ord) = filter (\<lambda>p. fst p \<noteq> e) (entries m ord)"
  by (induction ord) (auto simp: entries_Nil entries_Cons split: option.splits)

lemma getStats_removed:
  assumes "callbacks_map s e = Some []"
  shows "getStats (removeAll e ord) (s\<lparr>callbacks_map := (callbacks_map s)(e := None)\<rparr>) =
     getStats ord s"
proof -
  have "\<forall>p \<in> set (entries (callbacks_map s) ord). \<not> fst p \<noteq> e \<longrightarrow> snd p = []"
    using assms by (auto simp: set_entries)
  then show ?thesis
    by (simp add: getStats_def entries_removed fold_getStats_step_filter)
qed

lemma getAllEventNames_removed:
  assumes "callbacks_map s e = Some []"
  shows "getAllEventNames (removeAll e ord) (s\<lparr>callbacks_map := (callbacks_map s)(e := None)\<rparr>) =
     getAllEventNames ord s"
  using assms
  by (induction ord) (auto simp: getAllEventNames_filter isEventRegistered_def)

lemma iteration_order_removed:
  "iteration_order m ord \<Longrightarrow> iteration_order (m(e := None)) (removeAll e ord)"
  by (auto simp: iteration_order_def distinct_removeAll)

text \<open>
  C7. \<open>isEventRegistered\<close> is true exactly of the events whose entry holds at least
  one subscription; \<open>getAllEventNames\<close> lists exactly those events, each once. An event
  whose entry is empty is not registered, has the count 0 and is not listed, and every
  read-only query (\<open>isEventRegistered\<close>, \<open>getCallbackCount\<close>, \<open>getAllEventNames\<close>,
  \<open>getStats\<close>) answers on the bus as it answers on the bus without that entry.
\<close>

theorem empty_entry_is_unregistered:
  assumes "iteration_order (callbacks_map s) ord"
  shows "(isEventRegistered s eventName \<longleftrightarrow>
       (\<exists>callbacks. callbacks_map s eventName = Some callbacks \<and> callbacks \<noteq> [])) \<and>
     set (getAllEventNames ord s) = {e. isEventRegistered s e} \<and>
     distinct (getAllEventNames ord s) \<and>
     (callbacks_map s eventName = Some [] \<longrightarrow>
        \<not> isEventRegistered s eventName \<and> getCallbackCount s eventName = 0 \<and>
        eventName \<notin> set (getAllEventNames ord s) \<and>
        (let s' = s\<lparr>callbacks_map := (callbacks_map s)(eventName := None)\<rparr>;
             ord' = removeAll eventName ord
         in iteration_order (callbacks_map s') ord' \<and>
            (\<forall>e. isEventRegistered s' e = isEventRegistered s e \<and>
                 getCallbackCount s' e = getCallbackCount s e) \<and>
            getAllEventNames ord' s' = getAllEventNames ord s \<and>
            getStats ord' s' = getStats ord s))"
proof -
  have r: "isEventRegistered s eventName \<longleftrightarrow>
       (\<exists>callbacks. callbacks_map s eventName = Some callbacks \<and> callbacks \<noteq> [])"
    by (simp add: isEventRegistered_def split: option.splits)
  have "{e. isEventRegistered s e} \<subseteq> set ord"
    using assms by (auto simp: iteration_order_def isEventRegistered_def split: option.splits)
  then have n: "set (getAllEventNames ord s) = {e. isEventRegistered s e}"
    by (auto simp: getAllEventNames_filter)
  have d: "distinct (getAllEventNames ord s)"
    using assms by (simp add: getAllEventNames_filter iteration_order_def)
  have e: "\<not> isEventRegistered s eventName \<and> getCallbackCount s eventName = 0 \<and>
        eventName \<notin> set (getAllEventNames ord s) \<and>
        (let s' = s\<lparr>callbacks_map := (callbacks_map s)(eventName := None)\<rparr>;
             ord' = removeAll eventName ord
         in iteration_order (callbacks_map s') ord' \<and>
            (\<forall>e. isEventRegistered s' e = isEventRegistered s e \<and>
                 getCallbackCount s' e = getCallbackCount s e) \<and>
            getAllEventNames ord' s' = getAllEventNames ord s \<and>
            getStats ord' s' = getStats ord s)"
    if m: "callbacks_map s eventName = Some []"
  proof -
    have 1: "\<not> isEventRegistered s eventName" "getCallbackCount s eventName = 0"
      using m by (simp_all add: isEventRegistered_def getCallbackCount_def)
    then have 2: "eventName \<notin> set (getAllEventNames ord s)"
      by (simp add: n)
    have 3: "isEventRegistered (s\<lparr>callbacks_map := (callbacks_map s)(eventName := None)\<rparr>) e =
          isEventRegistered s e \<and>
        getCallbackCount (s\<lparr>callbacks_map := (callbacks_map s)(eventName := None)\<rparr>) e =
          getCallbackCount s e" for e
      using m by (simp add: isEventRegistered_def getCallbackCount_def)
    have 4: "iteration_order
        (callbacks_map (s\<lparr>callbacks_map := (callbacks_map s)(eventName := None)\<rparr>))
        (removeAll eventName ord)"
      using iteration_order_removed [OF assms, of eventName] by simp
    from 1 2 3 4 getAllEventNames_removed [OF m, of ord] getStats_removed [OF m, of ord]
    show ?thesis by (simp add: Let_def)
  qed
  from r n d e show ?thesis by blast
qed

lemma emptied_bus_map:
  "callbacks_map emptied_bus =
     [''y'' \<mapsto> [\<lparr>wrapper_id = 2, wrapper_args = [], callback = recording ''b''\<rparr>],
      ''x'' \<mapsto> []]"
  by (simp add: emptied_bus_def subscribe_def unsubscribe_def new_EventBus_def Let_def
      get_id_def)

theorem empty_entry_is_unregistered_witness:
  "iteration_order (callbacks_map emptied_bus) [''x'', ''y''] \<and>
   callbacks_map emptied_bus ''x'' = Some [] \<and>
   \<not> isEventRegistered emptied_bus ''x'' \<and>
   getCallbackCount emptied_bus ''x'' = 0 \<and>
   getAllEventNames [''x'', ''y''] emptied_bus = [''y''] \<and>
   getStats [''y''] (emptied_bus\<lparr>callbacks_map := (callbacks_map emptied_bus)(''x'' := None)\<rparr>) =
     getStats [''x'', ''y''] emptied_bus"
proof -
  have o: "iteration_order (callbacks_map emptied_bus) [''x'', ''y'']"
    by (auto simp: iteration_order_def emptied_bus_map)
  have m: "callbacks_map emptied_bus ''x'' = Some []"
    by (simp add: emptied_bus_map)
  have n: "getAllEventNames [''x'', ''y''] emptied_bus = [''y'']"
    by (simp add: getAllEventNames_def entries_def emptied_bus_map)
  from empty_entry_is_unregistered [OF o, of "''x''"] m o n show ?thesis
    by (simp add: Let_def)
qed


section \<open>Statistics\<close>

lemma fold_getStats_step:
  "total_events (fold getStats_step ps a) =
      total_events a + length (filter (\<lambda>p. snd p \<noteq> []) ps) \<and>
   total_callbacks (fold getStats_step ps a) =
      total_callbacks a + sum_list (map (\<lambda>p. length (snd p)) ps) \<and>
   max_callbacks_per_event a \<le> max_callbacks_per_event (fold getStats_step ps a) \<and>
   (\<forall>p \<in> set ps. length (snd p) \<le> max_callbacks_per_event (fold getStats_step ps a)) \<and>
   (max_callbacks_per_event (fold getStats_step ps a) = max_callbacks_per_event a \<and>
      most_subscribed_event (fold getStats_step ps a) = most_subscribed_event a \<or>
    (\<exists>v. (most_subscribed_event (fold getStats_step ps a), v) \<in> set ps \<and>
         length v = max_callbacks_per_event (fold getStats_step ps a)))"
proof (induction ps arbitrary: a)
  case Nil
  show ?case by simp
next
  case (Cons p ps)
  obtain k v where p: "p = (k, v)" by (cases p)
  show ?case
  proof (cases "v = []")
    case True
    with p have "getStats_step p a = a" by (simp add: getStats_step_empty)
    with Cons.IH [of a] p True show ?thesis by auto
  next
    case False
    show ?thesis
    proof (cases "length v > max_callbacks_per_event a")
      case True
      define b where "b = getStats_step p a"
      have b: "total_events b = total_events a + 1"
        "total_callbacks b = total_callbacks a + length v"
        "max_callbacks_per_event b = length v" "most_subscribed_event b = k"
        using p False True by (simp_all add: b_def getStats_step_def Let_def)
      from Cons.IH [of b] b p False True show ?thesis
        unfolding fold_Cons comp_apply b_def [symmetric]
        by (auto simp: b_def [symmetric])
    next
      case nm: False
      define b where "b = getStats_step p a"
      have b: "total_events b = total_events a + 1"
        "total_callbacks b = total_callbacks a + length v"
        "max_callbacks_per_event b = max_callbacks_per_event a"
        "most_subscribed_event b = most_subscribed_event a"
        using p False nm by (simp_all add: b_def getStats_step_def Let_def)
      from Cons.IH [of b] b p False nm show ?thesis
        unfolding fold_Cons comp_apply b_def [symmetric]
        by (auto simp: b_def [symmetric])
    qed
  qed
qed


lemma length_filter_entries:
  "length (filter (\<lambda>p. snd p \<noteq> []) (entries (callbacks_map s) ord)) =
     length (filter (isEventRegistered s) ord)"
  by (induction ord)
    (auto simp: entries_Nil entries_Cons isEventRegistered_def split: option.splits)

lemma sum_list_entries:
  "sum_list (map (\<lambda>p. length (snd p)) (entries (callbacks_map s) ord)) =
     sum_list (map (getCallbackCount s) ord)"
  by (induction ord)
    (auto simp: entries_Nil entries_Cons getCallbackCount_def split: option.splits)

text \<open>
  C5. For every order in which the scan visits the entries, \<open>getStats\<close> returns: the
  number of events with at least one subscription, the sum of the subscription counts
  of all events, a maximum that no event's count exceeds, and an event whose count is
  that maximum (a registered one as soon as one event is registered). On a bus that
  holds three subscriptions of \<open>''x''\<close> and one of \<open>''y''\<close> and nothing else it returns
  2, 4, 3 and \<open>''x''\<close>.
\<close>

theorem getStats_spec:
  assumes "iteration_order (callbacks_map s) ord"
  shows "total_events (getStats ord s) = card {e. isEventRegistered s e} \<and>
     total_callbacks (getStats ord s) = (\<Sum>e \<in> dom (callbacks_map s). getCallbackCount s e) \<and>
     (\<forall>e. getCallbackCount s e \<le> max_callbacks_per_event (getStats ord s)) \<and>
     getCallbackCount s (most_subscribed_event (getStats ord s)) =
       max_callbacks_per_event (getStats ord s) \<and>
     (0 < total_events (getStats ord s) \<longrightarrow>
        isEventRegistered s (most_subscribed_event (getStats ord s))) \<and>
     (callbacks_map s = [''x'' \<mapsto> cx, ''y'' \<mapsto> cy] \<and> length cx = 3 \<and> length cy = 1 \<longrightarrow>
        getStats ord s =
          \<lparr>total_events = 2, total_callbacks = 4, max_callbacks_per_event = 3,
           most_subscribed_event = ''x''\<rparr>)"
proof -
  define init where "init = \<lparr>total_events = 0, total_callbacks = 0,
      max_callbacks_per_event = 0, most_subscribed_event = []\<rparr>"
  define ps where "ps = entries (callbacks_map s) ord"
  define r where "r = getStats ord s"
  have r: "r = fold getStats_step ps init"
    by (simp add: r_def getStats_def ps_def init_def)
  from assms have ord: "distinct ord" "set ord = dom (callbacks_map s)"
    by (simp_all add: iteration_order_def)
  note f = fold_getStats_step [of ps init, folded r]
  have reg: "{e. isEventRegistered s e} \<subseteq> set ord"
    using ord by (auto simp: isEventRegistered_def split: option.splits)
  have "total_events r = length (filter (isEventRegistered s) ord)"
    using f by (simp add: init_def ps_def length_filter_entries)
  also have "\<dots> = card (set (filter (isEventRegistered s) ord))"
    using distinct_card [of "filter (isEventRegistered s) ord"] ord(1) by simp
  also have "set (filter (isEventRegistered s) ord) = {e. isEventRegistered s e}"
    using reg by auto
  finally have a: "total_events r = card {e. isEventRegistered s e}" .
  have "total_callbacks r = sum_list (map (getCallbackCount s) ord)"
    using f by (simp add: init_def ps_def sum_list_entries)
  also have "\<dots> = (\<Sum>e \<in> set ord. getCallbackCount s e)"
    using ord(1) by (rule sum_list_distinct_conv_sum_set)
  finally have b: "total_callbacks r = (\<Sum>e \<in> dom (callbacks_map s). getCallbackCount s e)"
    by (simp add: ord(2))
  have c: "getCallbackCount s e \<le> max_callbacks_per_event r" for e
  proof (cases "callbacks_map s e")
    case None
    then show ?thesis by (simp add: getCallbackCount_def)
  next
    case (Some v)
    with ord(2) have "(e, v) \<in> set ps"
      by (auto simp: ps_def set_entries)
    with f have "length (snd (e, v)) \<le> max_callbacks_per_event r" by blast
    with Some show ?thesis by (simp add: getCallbackCount_def)
  qed
  have d: "getCallbackCount s (most_subscribed_event r) = max_callbacks_per_event r"
  proof -
    from f consider
      (same) "max_callbacks_per_event r = max_callbacks_per_event init"
        "most_subscribed_event r = most_subscribed_event init"
      | (found) v where "(most_subscribed_event r, v) \<in> set ps"
        "length v = max_callbacks_per_event r"
      by blast
    then show ?thesis
    proof cases
      case same
      with c [of "[]"] show ?thesis by (simp add: init_def)
    next
      case found
      then show ?thesis by (simp add: ps_def set_entries getCallbackCount_def)
    qed
  qed
  have e: "isEventRegistered s (most_subscribed_event r)" if "0 < total_events r"
  proof -
    from that a have "card {e. isEventRegistered s e} \<noteq> 0" by simp
    then have "{e. isEventRegistered s e} \<noteq> {}" by (metis card.empty)
    then obtain x where "isEventRegistered s x" by auto
    then have "0 < getCallbackCount s x"
      by (auto simp: isEventRegistered_def getCallbackCount_def split: option.splits)
    with c [of x] d have "0 < getCallbackCount s (most_subscribed_event r)" by simp
    then show ?thesis
      by (auto simp: isEventRegistered_def getCallbackCount_def split: option.splits)
  qed
  have x: "r = \<lparr>total_events = 2, total_callbacks = 4, max_callbacks_per_event = 3,
           most_subscribed_event = ''x''\<rparr>"
    if m: "callbacks_map s = [''x'' \<mapsto> cx, ''y'' \<mapsto> cy]" and l: "length cx = 3" "length cy = 1"
  proof -
    have cnt: "getCallbackCount s e = (if e = ''y'' then 1 else if e = ''x'' then 3 else 0)" for e
      using m l by (simp add: getCallbackCount_def)
    have "{e. isEventRegistered s e} = {''x'', ''y''}"
      using m l by (auto simp: isEventRegistered_def split: if_splits)
    with a have 1: "total_events r = 2" by simp
    have "dom (callbacks_map s) = {''x'', ''y''}" using m by auto
    with b have 2: "total_callbacks r = 4" by (simp add: cnt)
    from c [of "''x''"] d have 3: "max_callbacks_per_event r = 3"
      by (simp add: cnt split: if_splits)
    with d have 4: "most_subscribed_event r = ''x''"
      by (simp add: cnt split: if_splits)
    from 1 2 3 4 show ?thesis by (cases r) simp
  qed
  from a b c d e x show ?thesis unfolding r_def by blast
qed

lemma three_and_one_map:
  "callbacks_map three_and_one =
     [''x'' \<mapsto> [\<lparr>wrapper_id = 1, wrapper_args = [ByValue TInt], callback = recording ''a''\<rparr>,
                \<lparr>wrapper_id = 3, wrapper_args = [ByConstRef TString], callback = recording ''c''\<rparr>,
                \<lparr>wrapper_id = 4, wrapper_args = [], callback = recording ''d''\<rparr>],
      ''y'' \<mapsto> [\<lparr>wrapper_id = 2, wrapper_args = [], callback = recording ''b''\<rparr>]]"
  by (simp add: three_and_one_def subscribe_def new_EventBus_def Let_def fun_upd_twist)

theorem getStats_spec_witness:
  "iteration_order (callbacks_map three_and_one) [''y'', ''x''] \<and>
   getStats [''y'', ''x''] three_and_one =
     \<lparr>total_events = 2, total_callbacks = 4, max_callbacks_per_event = 3,
      most_subscribed_event = ''x''\<rparr>"
proof -
  have o: "iteration_order (callbacks_map three_and_one) [''y'', ''x'']"
    by (auto simp: iteration_order_def three_and_one_map)
  from getStats_spec [OF o,
      where cx = "[\<lparr>wrapper_id = 1, wrapper_args = [ByValue TInt], callback = recording ''a''\<rparr>,
                \<lparr>wrapper_id = 3, wrapper_args = [ByConstRef TString], callback = recording ''c''\<rparr>,
                \<lparr>wrapper_id = 4, wrapper_args = [], callback = recording ''d''\<rparr>]"
      and cy = "[\<lparr>wrapper_id = 2, wrapper_args = [], callback = recording ''b''\<rparr>]"] o
  show ?thesis
    by (simp add: three_and_one_map)
qed

end
